theory Spec2Isabelle
  imports Main "HOL-Library.Word"
begin

section \<open>Serial circular buffer service: the data model\<close>

text \<open>
  The driver of \<open>serial_circular_buffer_service.cpp\<close> keeps two circular buffers over
  memory regions borrowed from its caller and hands contiguous runs of them to the
  peripheral DMA controller (PDC) of a UART. All of its indices and sizes are
  \<open>uint32_t\<close>, modelled as 32-bit words: \<open>+\<close> and \<open>-\<close> wrap around, \<open><\<close> and
  \<open>mod\<close> are the unsigned comparison and remainder, and \<open>sint\<close> reads a word the
  way a cast to \<open>int32_t\<close> does.
\<close>

type_synonym u32 = "32 word"
type_synonym byte = "8 word"

text \<open>
  What C++ leaves undefined is a value of the model: an access outside a memory
  region, a remainder or quotient by zero, a call through a null instance pointer.
\<close>

datatype fault = OutOfBounds | DivideByZero | NullPointer

definition then_do :: "fault + 'a \<Rightarrow> ('a \<Rightarrow> fault + 'b) \<Rightarrow> fault + 'b" where
  "then_do m f = (case m of Inl e \<Rightarrow> Inl e | Inr x \<Rightarrow> f x)"

text \<open>
  \<open>uart_t\<close> is a pointer to a peripheral's register block. The code compares it with
  the two ports it knows and does nothing port-specific for any other address.
\<close>

datatype uart_t = UART_PORT_0 | UART_PORT_1 | UART_OTHER u32

datatype pdc_t = PDC_UART_PORT_0 | PDC_UART_PORT_1 | PDC_UNSET

datatype uart_parity_selection_t =
  UART_PARITY_EVEN | UART_PARITY_ODD | UART_PARITY_SPACE | UART_PARITY_MARK | UART_PARITY_NONE

fun parity_value :: "uart_parity_selection_t \<Rightarrow> u32" where
  "parity_value UART_PARITY_EVEN = 0"
| "parity_value UART_PARITY_ODD = 1"
| "parity_value UART_PARITY_SPACE = 2"
| "parity_value UART_PARITY_MARK = 3"
| "parity_value UART_PARITY_NONE = 4"

text \<open>
  One record holds the fields of the class \<open>serial_circular_buffer\<close> (under their own
  names), the two memory regions its buffer pointers point to, and the registers of the
  UART and of its PDC channel that the code reads and writes:
  \<^item> \<open>rx_mem\<close>, \<open>tx_mem\<close>: the bytes at \<open>rx_buffer\<close> and \<open>pdc_tx_buffer\<close>; their
    lengths are what the caller really allocated, which \<open>init\<close> is told but cannot check;
  \<^item> \<open>periph_rpr\<close>, \<open>periph_rcr\<close>, \<open>periph_tpr\<close>, \<open>periph_tcr\<close>: the PDC's receive and
    transmit pointer and counter registers; the hardware counts \<open>periph_rcr\<close> down as
    bytes arrive;
  \<^item> \<open>pdc_rx_enabled\<close>, \<open>pdc_tx_enabled\<close>: what the writes to \<open>PERIPH_PTCR\<close> switch;
  \<^item> \<open>rxbuff_irq_enabled\<close>, \<open>txbufe_irq_enabled\<close>: the two interrupt sources, switched
    by writes to \<open>UART_IER\<close> and \<open>UART_IDR\<close>; \<open>irq_line_enabled\<close>: the port's line
    in the interrupt controller;
  \<^item> \<open>sr_rxbuff\<close>, \<open>sr_txbufe\<close>: the bits RXBUFF and TXBUFE of the status register
    \<open>UART_SR\<close>, set by the hardware and read by the interrupt handler;
  \<^item> \<open>uart_brgr_cd\<close>, \<open>uart_mr_par\<close>: the clock divisor and the parity handed to the
    baud-rate and mode registers (the register masks of the vendor header are not in
    the repository and are not applied);
  \<^item> \<open>tx_armed_runs\<close> and \<open>tail_when_armed\<close>: not a part of the program. They
    record, for each arming of the transmit channel, the bytes that lie in the armed
    memory range at that moment and the value \<open>tx_buffer_tail_index\<close> has at that moment.

  The registers are fields of the record whatever the two base-address fields hold: for
  a port the code does not know, \<open>pdc_peripheral_base_address\<close> is never assigned, and
  what lies at such an address is not modelled.
\<close>

record driver =
  uart_peripheral_base_address :: uart_t
  pdc_peripheral_base_address :: pdc_t
  rx_buffer :: u32
  rx_buffer_size :: u32
  pdc_tx_buffer :: u32
  tx_buffer_size :: u32
  tx_buffer_head_index :: u32
  tx_buffer_tail_index :: u32
  rx_buffer_tail_index :: u32
  pdc_Tx_in_progress :: bool
  rx_mem :: "byte list"
  tx_mem :: "byte list"
  periph_rpr :: u32
  periph_rcr :: u32
  periph_tpr :: u32
  periph_tcr :: u32
  pdc_rx_enabled :: bool
  pdc_tx_enabled :: bool
  rxbuff_irq_enabled :: bool
  txbufe_irq_enabled :: bool
  irq_line_enabled :: bool
  sr_rxbuff :: bool
  sr_txbufe :: bool
  uart_brgr_cd :: u32
  uart_mr_par :: u32
  tx_armed_runs :: "byte list list"
  tail_when_armed :: "u32 list"

section \<open>The hardware abstraction layer\<close>

text \<open>
  \<open>HAL_UART_INITIAILZE\<close> resets the UART, routes its pins, and sets the baud rate to
  \<open>SystemCoreClock / (baudrate * 16)\<close> and the parity; then it switches the PDC off
  until it is set up. The quotient is computed in \<open>uint32_t\<close>, and a divisor that is
  zero there is a fault. Pin routing and the control register keep no state that the
  driver reads back and are left out.
\<close>

definition HAL_UART_INITIAILZE :: "u32 \<Rightarrow> u32 \<Rightarrow> u32 \<Rightarrow> driver \<Rightarrow> fault + driver" where
  "HAL_UART_INITIAILZE SystemCoreClock baudrate parity s =
     (if baudrate * 16 = 0 then Inl DivideByZero
      else Inr (s\<lparr>uart_brgr_cd := SystemCoreClock div (baudrate * 16),
                  uart_mr_par := parity,
                  pdc_rx_enabled := False,
                  pdc_tx_enabled := False\<rparr>))"

definition HAL_PDC_RX_INIT_NO_NEXT :: "u32 \<Rightarrow> u32 \<Rightarrow> driver \<Rightarrow> driver" where
  "HAL_PDC_RX_INIT_NO_NEXT address sz s = s\<lparr>periph_rpr := address, periph_rcr := sz\<rparr>"

definition HAL_PDC_TX_INIT_NO_NEXT :: "u32 \<Rightarrow> u32 \<Rightarrow> driver \<Rightarrow> driver" where
  "HAL_PDC_TX_INIT_NO_NEXT address sz s = s\<lparr>periph_tpr := address, periph_tcr := sz\<rparr>"

text \<open>
  \<open>memcpy\<close> of \<open>n\<close> bytes from offset \<open>soff\<close> of \<open>src\<close> to offset \<open>doff\<close> of the
  region \<open>dst\<close>: a fault unless both ranges lie inside their regions.
\<close>

definition memcpy :: "byte list \<Rightarrow> nat \<Rightarrow> byte list \<Rightarrow> nat \<Rightarrow> nat \<Rightarrow> fault + byte list" where
  "memcpy dst doff src soff n =
     (if doff + n \<le> length dst \<and> soff + n \<le> length src
      then Inr (take doff dst @ take n (drop soff src) @ drop (doff + n) dst)
      else Inl OutOfBounds)"

section \<open>The driver\<close>

subsection \<open>Private member functions\<close>

definition get_rx_buffer_head_index :: "driver \<Rightarrow> u32" where
  "get_rx_buffer_head_index s = rx_buffer_size s - periph_rcr s"

definition increment_rx_buffer_tail_index :: "u32 \<Rightarrow> driver \<Rightarrow> fault + driver" where
  "increment_rx_buffer_tail_index increment_index s =
     (if rx_buffer_size s = 0 then Inl DivideByZero
      else Inr (s\<lparr>rx_buffer_tail_index :=
                    (rx_buffer_tail_index s + increment_index) mod rx_buffer_size s\<rparr>))"

definition increment_tx_buffer_head_index :: "u32 \<Rightarrow> driver \<Rightarrow> fault + driver" where
  "increment_tx_buffer_head_index increment_index s =
     (if tx_buffer_size s = 0 then Inl DivideByZero
      else Inr (s\<lparr>tx_buffer_head_index :=
                    (tx_buffer_head_index s + increment_index) mod tx_buffer_size s\<rparr>))"

definition increment_tx_buffer_tail_index :: "u32 \<Rightarrow> driver \<Rightarrow> fault + driver" where
  "increment_tx_buffer_tail_index increment_index s =
     (if tx_buffer_size s = 0 then Inl DivideByZero
      else Inr (s\<lparr>tx_buffer_tail_index :=
                    (tx_buffer_tail_index s + increment_index) mod tx_buffer_size s\<rparr>))"

text \<open>
  The difference of the two indices is taken in \<open>uint32_t\<close> and stored in an
  \<open>int32_t\<close>; when that is negative the buffer size is added, and the result is cast
  back to \<open>uint32_t\<close>.
\<close>

definition get_number_of_unsent_bytes :: "driver \<Rightarrow> u32" where
  "get_number_of_unsent_bytes s =
     (let difference = tx_buffer_head_index s - tx_buffer_tail_index s
      in if sint difference < 0 then difference + tx_buffer_size s else difference)"

text \<open>
  \<open>initiate_PDC_Tx\<close> is always called with a pointer \<open>&pdc_tx_buffer[i]\<close>; the model
  takes the index \<open>i\<close>. It arms the transmit channel and enables the transmit-empty
  interrupt source.
\<close>

definition initiate_PDC_Tx :: "u32 \<Rightarrow> u32 \<Rightarrow> driver \<Rightarrow> driver" where
  "initiate_PDC_Tx i bytes_to_transfer s =
     (HAL_PDC_TX_INIT_NO_NEXT (pdc_tx_buffer s + i) bytes_to_transfer s)
       \<lparr>txbufe_irq_enabled := True,
        tx_armed_runs := tx_armed_runs s @ [take (unat bytes_to_transfer) (drop (unat i) (tx_mem s))],
        tail_when_armed := tail_when_armed s @ [tx_buffer_tail_index s]\<rparr>"

subsection \<open>Public member functions\<close>

text \<open>
  \<open>init\<close> for the object \<open>s\<close>. The two regions are the memory the caller's pointers
  point to. The assignment to the global instance pointer is modelled with the
  interrupt entry points below.
\<close>

definition init ::
  "u32 \<Rightarrow> uart_t \<Rightarrow> u32 \<Rightarrow> byte list \<Rightarrow> u32 \<Rightarrow> u32 \<Rightarrow> byte list \<Rightarrow> u32 \<Rightarrow> u32 \<Rightarrow>
   uart_parity_selection_t \<Rightarrow> driver \<Rightarrow> fault + driver" where
  "init SystemCoreClock uart_port_base_addr Rx_buffer_ptr Rx_region Rx_buffer_size_in_bytes
        Tx_buffer_ptr Tx_region Tx_buffer_size_in_bytes baud_rate parity s =
     (let s1 = s\<lparr>uart_peripheral_base_address := uart_port_base_addr\<rparr>;
          s2 = (if uart_port_base_addr = UART_PORT_0
                then s1\<lparr>pdc_peripheral_base_address := PDC_UART_PORT_0\<rparr>
                else if uart_port_base_addr = UART_PORT_1
                then s1\<lparr>pdc_peripheral_base_address := PDC_UART_PORT_1\<rparr>
                else s1)
      in then_do (HAL_UART_INITIAILZE SystemCoreClock baud_rate (parity_value parity) s2)
           (\<lambda>s3.
              let s4 = s3\<lparr>rx_buffer_size := Rx_buffer_size_in_bytes,
                          rx_buffer := Rx_buffer_ptr,
                          rx_mem := Rx_region,
                          tx_buffer_size := Tx_buffer_size_in_bytes,
                          pdc_tx_buffer := Tx_buffer_ptr,
                          tx_mem := Tx_region,
                          rx_buffer_tail_index := 0,
                          tx_buffer_head_index := 0,
                          tx_buffer_tail_index := 0,
                          pdc_Tx_in_progress := False\<rparr>;
                  s5 = HAL_PDC_RX_INIT_NO_NEXT (rx_buffer s4) (rx_buffer_size s4) s4;
                  s6 = s5\<lparr>pdc_tx_enabled := True,
                          pdc_rx_enabled := True,
                          rxbuff_irq_enabled := True,
                          txbufe_irq_enabled := False\<rparr>
              in Inr (if uart_port_base_addr = UART_PORT_0 \<or> uart_port_base_addr = UART_PORT_1
                      then s6\<lparr>irq_line_enabled := True\<rparr>
                      else s6)))"

definition get_latest_byte :: "driver \<Rightarrow> fault + (byte \<times> driver)" where
  "get_latest_byte s =
     (if unat (rx_buffer_tail_index s) < length (rx_mem s)
      then then_do (increment_rx_buffer_tail_index 1 s)
             (\<lambda>s'. Inr (rx_mem s ! unat (rx_buffer_tail_index s), s'))
      else Inl OutOfBounds)"

definition get_number_of_unread_bytes :: "driver \<Rightarrow> u32" where
  "get_number_of_unread_bytes s =
     (let difference = get_rx_buffer_head_index s - rx_buffer_tail_index s
      in if sint difference < 0 then difference + rx_buffer_size s else difference)"

text \<open>
  The packet is the byte list \<open>serialized_data_to_transmit\<close>, of which the call says
  it holds \<open>number_of_bytes_to_transmit\<close> bytes. The sum that decides the rollover is a
  \<open>uint32_t\<close> sum.
\<close>

definition copy_packet_into_Tx_buffer_and_transmit :: "byte list \<Rightarrow> u32 \<Rightarrow> driver \<Rightarrow> fault + driver" where
  "copy_packet_into_Tx_buffer_and_transmit serialized_data_to_transmit number_of_bytes_to_transmit s =
     (let initial_tx_buffer_head_index = tx_buffer_head_index s;
          circular_buffer_rollover_condition =
            (number_of_bytes_to_transmit + tx_buffer_head_index s > tx_buffer_size s);
          first_contiguous_block_size =
            (if circular_buffer_rollover_condition
             then tx_buffer_size s - tx_buffer_head_index s
             else number_of_bytes_to_transmit);
          second_contiguous_block_size =
            (if circular_buffer_rollover_condition
             then (number_of_bytes_to_transmit + tx_buffer_head_index s) - tx_buffer_size s
             else 0)
      in then_do (memcpy (tx_mem s) (unat (tx_buffer_head_index s))
                    serialized_data_to_transmit 0 (unat first_contiguous_block_size))
           (\<lambda>m1.
         then_do (increment_tx_buffer_head_index first_contiguous_block_size (s\<lparr>tx_mem := m1\<rparr>))
           (\<lambda>s1.
         then_do
           (if circular_buffer_rollover_condition
            then then_do (memcpy (tx_mem s1) (unat (tx_buffer_head_index s1))
                            serialized_data_to_transmit (unat first_contiguous_block_size)
                            (unat second_contiguous_block_size))
                   (\<lambda>m2. increment_tx_buffer_head_index second_contiguous_block_size
                            (s1\<lparr>tx_mem := m2\<rparr>))
            else Inr s1)
           (\<lambda>s2.
         if \<not> pdc_Tx_in_progress s2
         then then_do (increment_tx_buffer_tail_index first_contiguous_block_size
                         (s2\<lparr>pdc_Tx_in_progress := True\<rparr>))
                (\<lambda>s3. Inr (initiate_PDC_Tx initial_tx_buffer_head_index
                              first_contiguous_block_size s3))
         else Inr s2))))"

subsection \<open>The interrupt handler\<close>

definition serial_circular_buffer_irq_handler :: "driver \<Rightarrow> fault + driver" where
  "serial_circular_buffer_irq_handler s =
     (let s1 = (if sr_rxbuff s
                then HAL_PDC_RX_INIT_NO_NEXT (rx_buffer s) (rx_buffer_size s) s
                else s)
      in if sr_txbufe s1
         then
           (let number_of_unsent_tx_bytes = get_number_of_unsent_bytes s1
            in if number_of_unsent_tx_bytes \<noteq> 0
               then
                 (let number_of_bytes_to_send =
                        (if tx_buffer_head_index s1 < tx_buffer_tail_index s1
                         then tx_buffer_size s1 - tx_buffer_tail_index s1
                         else number_of_unsent_tx_bytes)
                  in then_do (increment_tx_buffer_tail_index number_of_bytes_to_send
                                (initiate_PDC_Tx (tx_buffer_tail_index s1) number_of_bytes_to_send s1))
                       (\<lambda>s2. Inr (s2\<lparr>pdc_Tx_in_progress := True\<rparr>)))
               else Inr (s1\<lparr>pdc_Tx_in_progress := False, txbufe_irq_enabled := False\<rparr>))
         else Inr s1)"

subsection \<open>The interrupt entry points and the instance pointers\<close>

text \<open>
  The two global pointers \<open>UART0_ISR_instance_ptr\<close> and \<open>UART1_ISR_instance_ptr\<close> start
  as \<open>NULL\<close> (\<open>None\<close>); \<open>init\<close> stores \<open>this\<close> in the one that belongs to its port.
  Driver objects are statically allocated: \<open>objects\<close> gives the object at each address.
  The fixed entry points \<open>UART0_Handler\<close> and \<open>UART1_Handler\<close> call the handler
  through the pointer without a check, so a null pointer is a fault.
\<close>

record system =
  UART0_ISR_instance_ptr :: "nat option"
  UART1_ISR_instance_ptr :: "nat option"
  objects :: "nat \<Rightarrow> driver"

definition on_object :: "nat \<Rightarrow> (driver \<Rightarrow> fault + driver) \<Rightarrow> system \<Rightarrow> fault + system" where
  "on_object this f sys =
     then_do (f (objects sys this)) (\<lambda>s'. Inr (sys\<lparr>objects := (objects sys)(this := s')\<rparr>))"

definition system_init ::
  "nat \<Rightarrow> u32 \<Rightarrow> uart_t \<Rightarrow> u32 \<Rightarrow> byte list \<Rightarrow> u32 \<Rightarrow> u32 \<Rightarrow> byte list \<Rightarrow> u32 \<Rightarrow> u32 \<Rightarrow>
   uart_parity_selection_t \<Rightarrow> system \<Rightarrow> fault + system" where
  "system_init this SystemCoreClock uart_port_base_addr Rx_buffer_ptr Rx_region
        Rx_buffer_size_in_bytes Tx_buffer_ptr Tx_region Tx_buffer_size_in_bytes baud_rate parity sys =
     (let sys1 = (if uart_port_base_addr = UART_PORT_0
                  then sys\<lparr>UART0_ISR_instance_ptr := Some this\<rparr>
                  else if uart_port_base_addr = UART_PORT_1
                  then sys\<lparr>UART1_ISR_instance_ptr := Some this\<rparr>
                  else sys)
      in on_object this
           (init SystemCoreClock uart_port_base_addr Rx_buffer_ptr Rx_region
              Rx_buffer_size_in_bytes Tx_buffer_ptr Tx_region Tx_buffer_size_in_bytes
              baud_rate parity) sys1)"

definition UART0_Handler :: "system \<Rightarrow> fault + system" where
  "UART0_Handler sys =
     (case UART0_ISR_instance_ptr sys of
        None \<Rightarrow> Inl NullPointer
      | Some this \<Rightarrow> on_object this serial_circular_buffer_irq_handler sys)"

definition UART1_Handler :: "system \<Rightarrow> fault + system" where
  "UART1_Handler sys =
     (case UART1_ISR_instance_ptr sys of
        None \<Rightarrow> Inl NullPointer
      | Some this \<Rightarrow> on_object this serial_circular_buffer_irq_handler sys)"

text \<open>
  What can happen to the whole system: a call of a public member function on the object
  at some address, or one of the two interrupts.
\<close>

datatype call =
    Call_init nat u32 uart_t u32 "byte list" u32 u32 "byte list" u32 u32 uart_parity_selection_t
  | Call_get_latest_byte nat
  | Call_copy_packet nat "byte list" u32
  | Irq_UART0
  | Irq_UART1

fun system_step :: "call \<Rightarrow> system \<Rightarrow> fault + system" where
  "system_step (Call_init this clk port rxp rxm rxn txp txm txn baud par) sys =
     system_init this clk port rxp rxm rxn txp txm txn baud par sys"
| "system_step (Call_get_latest_byte this) sys =
     on_object this (\<lambda>s. then_do (get_latest_byte s) (\<lambda>(b, s'). Inr s')) sys"
| "system_step (Call_copy_packet this data n) sys =
     on_object this (copy_packet_into_Tx_buffer_and_transmit data n) sys"
| "system_step Irq_UART0 sys = UART0_Handler sys"
| "system_step Irq_UART1 sys = UART1_Handler sys"

fun system_run :: "call list \<Rightarrow> system \<Rightarrow> fault + system" where
  "system_run [] sys = Inr sys"
| "system_run (c # cs) sys = then_do (system_step c sys) (system_run cs)"

section \<open>States and scenarios\<close>

text \<open>
  A statically allocated object before \<open>init\<close>: all fields zero.
\<close>

definition blank_driver :: driver where
  "blank_driver =
     \<lparr>uart_peripheral_base_address = UART_OTHER 0,
      pdc_peripheral_base_address = PDC_UNSET,
      rx_buffer = 0, rx_buffer_size = 0, pdc_tx_buffer = 0, tx_buffer_size = 0,
      tx_buffer_head_index = 0, tx_buffer_tail_index = 0, rx_buffer_tail_index = 0,
      pdc_Tx_in_progress = False, rx_mem = [], tx_mem = [],
      periph_rpr = 0, periph_rcr = 0, periph_tpr = 0, periph_tcr = 0,
      pdc_rx_enabled = False, pdc_tx_enabled = False,
      rxbuff_irq_enabled = False, txbufe_irq_enabled = False, irq_line_enabled = False,
      sr_rxbuff = False, sr_txbufe = False, uart_brgr_cd = 0, uart_mr_par = 0,
      tx_armed_runs = [], tail_when_armed = []\<rparr>"

definition blank_system :: system where
  "blank_system =
     \<lparr>UART0_ISR_instance_ptr = None, UART1_ISR_instance_ptr = None,
      objects = (\<lambda>_. blank_driver)\<rparr>"

text \<open>
  The transmit indices lie inside the buffer, and the transmit region has the size the
  driver was told. Likewise for the receive side.
\<close>

definition tx_indices_ok :: "driver \<Rightarrow> bool" where
  "tx_indices_ok s \<longleftrightarrow>
     tx_buffer_head_index s < tx_buffer_size s \<and> tx_buffer_tail_index s < tx_buffer_size s"

definition tx_region_ok :: "driver \<Rightarrow> bool" where
  "tx_region_ok s \<longleftrightarrow> length (tx_mem s) = unat (tx_buffer_size s)"

definition rx_index_ok :: "driver \<Rightarrow> bool" where
  "rx_index_ok s \<longleftrightarrow> rx_buffer_tail_index s < rx_buffer_size s"

definition rx_region_ok :: "driver \<Rightarrow> bool" where
  "rx_region_ok s \<longleftrightarrow> length (rx_mem s) = unat (rx_buffer_size s)"

text \<open>The transmitter is idle: nothing in progress and nothing pending.\<close>

definition tx_idle :: "driver \<Rightarrow> bool" where
  "tx_idle s \<longleftrightarrow>
     \<not> pdc_Tx_in_progress s \<and> tx_buffer_head_index s = tx_buffer_tail_index s \<and>
     tx_buffer_head_index s < tx_buffer_size s"

text \<open>The invariant of the transmit side: idle means nothing is left to send.\<close>

definition idle_means_sent :: "driver \<Rightarrow> bool" where
  "idle_means_sent s \<longleftrightarrow> pdc_Tx_in_progress s \<or> get_number_of_unsent_bytes s = 0"

text \<open>
  The hardware changes its own registers and fills the receive region behind the
  driver's back.
\<close>

definition hardware_step :: "u32 \<Rightarrow> u32 \<Rightarrow> bool \<Rightarrow> bool \<Rightarrow> byte list \<Rightarrow> driver \<Rightarrow> driver" where
  "hardware_step rcr tcr rxbuff txbufe m s =
     s\<lparr>periph_rcr := rcr, periph_tcr := tcr, sr_rxbuff := rxbuff, sr_txbufe := txbufe, rx_mem := m\<rparr>"

text \<open>The states a driver object can reach once \<open>init\<close> has run.\<close>

inductive reachable :: "driver \<Rightarrow> bool" where
  after_init:
    "init clk port rxp rxm rxn txp txm txn baud par s0 = Inr s \<Longrightarrow> reachable s"
| after_get_latest_byte:
    "reachable s \<Longrightarrow> get_latest_byte s = Inr (b, s') \<Longrightarrow> reachable s'"
| after_copy_packet:
    "reachable s \<Longrightarrow> unat n \<le> unat (tx_buffer_size s) \<Longrightarrow>
     copy_packet_into_Tx_buffer_and_transmit d n s = Inr s' \<Longrightarrow> reachable s'"
| after_irq:
    "reachable s \<Longrightarrow> serial_circular_buffer_irq_handler s = Inr s' \<Longrightarrow> reachable s'"
| after_hardware:
    "reachable s \<Longrightarrow> length m = length (rx_mem s) \<Longrightarrow>
     reachable (hardware_step rcr tcr rxbuff txbufe m s)"

text \<open>
  The transmit-complete interrupt: the handler runs with TXBUFE set in the status
  register; \<open>rxbuff\<close> says whether the receive-full condition is signaled too.
\<close>

definition tx_complete_irq :: "bool \<Rightarrow> driver \<Rightarrow> fault + driver" where
  "tx_complete_irq rxbuff s =
     serial_circular_buffer_irq_handler (s\<lparr>sr_rxbuff := rxbuff, sr_txbufe := True\<rparr>)"

text \<open>
  A schedule interleaves packets handed to \<open>copy_packet_into_Tx_buffer_and_transmit\<close>
  with transmit-complete interrupts.
\<close>

datatype event = Enqueue "byte list" | TxComplete bool

fun run_event :: "event \<Rightarrow> driver \<Rightarrow> fault + driver" where
  "run_event (Enqueue d) s = copy_packet_into_Tx_buffer_and_transmit d (of_nat (length d)) s"
| "run_event (TxComplete rxbuff) s = tx_complete_irq rxbuff s"

fun run_events :: "event list \<Rightarrow> driver \<Rightarrow> fault + driver" where
  "run_events [] s = Inr s"
| "run_events (e # es) s = then_do (run_event e s) (run_events es)"

fun enqueued :: "event list \<Rightarrow> byte list" where
  "enqueued [] = []"
| "enqueued (Enqueue d # es) = d @ enqueued es"
| "enqueued (TxComplete rxbuff # es) = enqueued es"

fun packets_nonempty :: "event list \<Rightarrow> bool" where
  "packets_nonempty [] = True"
| "packets_nonempty (Enqueue d # es) = (d \<noteq> [] \<and> packets_nonempty es)"
| "packets_nonempty (TxComplete rxbuff # es) = packets_nonempty es"

text \<open>
  Transmit-complete interrupts until the transmitter is idle, at most \<open>fuel\<close> of them:
  \<open>None\<close> when the fuel runs out first.
\<close>

fun drive_until_idle :: "nat \<Rightarrow> driver \<Rightarrow> fault + driver option" where
  "drive_until_idle 0 s = (if \<not> pdc_Tx_in_progress s then Inr (Some s) else Inr None)"
| "drive_until_idle (Suc fuel) s =
     (if \<not> pdc_Tx_in_progress s then Inr (Some s)
      else then_do (tx_complete_irq False s) (drive_until_idle fuel))"

text \<open>Whether a call is an \<open>init\<close> for the port \<open>p\<close>.\<close>

fun inits_port :: "uart_t \<Rightarrow> call \<Rightarrow> bool" where
  "inits_port p (Call_init this clk port rxp rxm rxn txp txm txn baud par) = (port = p)"
| "inits_port p (Call_get_latest_byte this) = False"
| "inits_port p (Call_copy_packet this d n) = False"
| "inits_port p Irq_UART0 = False"
| "inits_port p Irq_UART1 = False"

subsection \<open>Concrete states\<close>

text \<open>
  The driver after \<open>init\<close> on port 0 with a receive region of 4 bytes and a transmit
  region of 8 bytes, at 115200 baud on a 48 MHz clock.
\<close>

definition example_driver :: driver where
  "example_driver =
     blank_driver\<lparr>uart_peripheral_base_address := UART_PORT_0,
                   pdc_peripheral_base_address := PDC_UART_PORT_0,
                   rx_buffer := 0x20000000, rx_buffer_size := 4, pdc_tx_buffer := 0x20000100,
                   tx_buffer_size := 8, rx_mem := replicate 4 0, tx_mem := replicate 8 0,
                   periph_rpr := 0x20000000, periph_rcr := 4,
                   pdc_rx_enabled := True, pdc_tx_enabled := True,
                   rxbuff_irq_enabled := True, irq_line_enabled := True,
                   uart_brgr_cd := 26, uart_mr_par := 4\<rparr>"

definition example_init :: "nat \<Rightarrow> uart_t \<Rightarrow> call" where
  "example_init this port =
     Call_init this 48000000 port 0x20000000 (replicate 4 0) 4 0x20000100 (replicate 8 0) 8
       115200 UART_PARITY_NONE"

text \<open>A driver whose transmit side has the given capacity, indices, flag and region.\<close>

definition tx_state :: "u32 \<Rightarrow> u32 \<Rightarrow> u32 \<Rightarrow> bool \<Rightarrow> byte list \<Rightarrow> driver" where
  "tx_state c h t p m =
     blank_driver\<lparr>tx_buffer_size := c, tx_buffer_head_index := h, tx_buffer_tail_index := t,
                   pdc_Tx_in_progress := p, tx_mem := m\<rparr>"

text \<open>A driver whose receive side has the given capacity, hardware counter and tail.\<close>

definition rx_state :: "u32 \<Rightarrow> u32 \<Rightarrow> u32 \<Rightarrow> driver" where
  "rx_state c rcr t =
     blank_driver\<lparr>rx_buffer_size := c, periph_rcr := rcr, rx_buffer_tail_index := t,
                   rx_mem := replicate (unat c) 0\<rparr>"

subsection \<open>The ring\<close>

text \<open>
  The region \<open>mem\<close> after the bytes \<open>d\<close> have been stored around the ring from index
  \<open>h\<close> on: when they do not fit before the end of the region, the rest goes to its
  beginning.
\<close>

definition ring_write :: "byte list \<Rightarrow> nat \<Rightarrow> byte list \<Rightarrow> byte list" where
  "ring_write mem h d =
     (if length mem < h + length d
      then drop (length mem - h) d @ drop (h + length d - length mem) (take h mem) @
           take (length mem - h) d
      else take h mem @ d @ drop (h + length d) mem)"

text \<open>
  The state of the transmit side in a run that started idle at head \<open>h0\<close> with capacity
  \<open>c\<close>: the bytes \<open>E\<close> have been handed over since, the first \<open>k\<close> of them have
  been armed, and \<open>R0\<close> are the bytes armed before the run. The bytes lie at consecutive
  ring positions from \<open>h0\<close> on, the head is the position after the last of them and the
  tail the position after the last armed one; fewer than \<open>c\<close> bytes wait to be armed.
\<close>

definition tx_ring_inv :: "nat \<Rightarrow> nat \<Rightarrow> byte list \<Rightarrow> byte list \<Rightarrow> nat \<Rightarrow> driver \<Rightarrow> bool" where
  "tx_ring_inv c h0 E R0 k s \<longleftrightarrow>
     unat (tx_buffer_size s) = c \<and> length (tx_mem s) = c \<and> c \<le> 2 ^ 31 \<and> h0 < c \<and>
     k \<le> length E \<and> length E \<le> c \<and>
     length E - k < c \<and>
     (\<not> pdc_Tx_in_progress s \<longrightarrow> k = length E) \<and>
     unat (tx_buffer_head_index s) = (h0 + length E) mod c \<and>
     unat (tx_buffer_tail_index s) = (h0 + k) mod c \<and>
     (\<forall>i<length E. tx_mem s ! ((h0 + i) mod c) = E ! i) \<and>
     concat (tx_armed_runs s) = R0 @ take k E"

section \<open>Auxiliary facts\<close>

lemma then_do_Inr [simp]: "then_do (Inr x) f = f x"
  by (simp add: then_do_def)

lemma then_do_Inl [simp]: "then_do (Inl e) f = Inl e"
  by (simp add: then_do_def)

lemma then_do_eq_Inr: "then_do m f = Inr y \<longleftrightarrow> (\<exists>x. m = Inr x \<and> f x = Inr y)"
  by (cases m) simp_all

lemmas driver_ops =
  copy_packet_into_Tx_buffer_and_transmit_def serial_circular_buffer_irq_handler_def
  get_latest_byte_def init_def memcpy_def
  increment_tx_buffer_head_index_def increment_tx_buffer_tail_index_def
  increment_rx_buffer_tail_index_def initiate_PDC_Tx_def HAL_PDC_TX_INIT_NO_NEXT_def
  HAL_PDC_RX_INIT_NO_NEXT_def HAL_UART_INITIAILZE_def get_number_of_unsent_bytes_def
  get_number_of_unread_bytes_def get_rx_buffer_head_index_def tx_complete_irq_def Let_def

lemma example_driver_init:
  "init 48000000 UART_PORT_0 0x20000000 (replicate 4 0) 4 0x20000100 (replicate 8 0) 8
     115200 UART_PARITY_NONE blank_driver = Inr example_driver"
  by (simp add: driver_ops example_driver_def blank_driver_def)

lemma replicate_bytes:
  "replicate 8 (0::byte) = [0, 0, 0, 0, 0, 0, 0, 0]" "replicate 4 (0::byte) = [0, 0, 0, 0]"
  by (simp_all add: numeral_eq_Suc)

subsection \<open>Arithmetic of 32-bit words\<close>

lemma mod_wrap2: "(m::nat) \<le> x \<Longrightarrow> x < 2 * m \<Longrightarrow> x mod m = x - m"
  by (simp add: le_mod_geq)

lemma sint_neg_iff: "sint (x :: u32) < 0 \<longleftrightarrow> 2 ^ 31 \<le> unat x"
proof -
  have "sint x < 0 \<longleftrightarrow> bit x 31"
    using bit_last_iff [of x] by simp
  also have "\<dots> \<longleftrightarrow> bit (unat x) 31"
    by (simp add: bit_unsigned_iff)
  also have "\<dots> \<longleftrightarrow> odd (unat x div 2 ^ 31)"
    by (simp add: bit_iff_odd)
  also have "\<dots> \<longleftrightarrow> 2 ^ 31 \<le> unat x"
  proof -
    have "unat x < 2 ^ 32" using unsigned_less [of x] by simp
    then have "unat x div 2 ^ 31 < 2" by (simp add: less_mult_imp_div_less)
    then have "unat x div 2 ^ 31 = 0 \<or> unat x div 2 ^ 31 = 1" by arith
    then show ?thesis by (auto simp: div_eq_0_iff)
  qed
  finally show ?thesis .
qed

lemma unat_u32_less: "unat (x :: u32) < 4294967296"
  using unsigned_less [of x] by simp

lemma unat_add_u32: "unat (a + b :: u32) = (unat a + unat b) mod 4294967296"
  by (simp add: unat_word_ariths)

lemma unat_sub_u32:
  "unat (a - b :: u32) = (if unat b \<le> unat a then unat a - unat b else unat a + 4294967296 - unat b)"
  using unat_sub_if' [of a b] by simp

lemma unat_mod_u32: "unat (a mod c :: u32) = unat a mod unat c"
  by (simp add: unat_mod)

text \<open>
  The signed difference of two indices below a capacity of at most \<open>2 ^ 31\<close>, corrected
  by the capacity when negative, is their distance around the ring.
\<close>

lemma ring_distance:
  fixes h t c :: u32
  assumes "h < c" "t < c" "unat c \<le> 2 ^ 31"
  shows "unat (let d = h - t in if sint d < 0 then d + c else d) =
           (if unat t \<le> unat h then unat h - unat t else unat h + unat c - unat t)"
proof -
  have hc: "unat h < unat c" and tc: "unat t < unat c"
    using assms by (simp_all add: word_less_nat_alt)
  have c: "unat c \<le> 2147483648" using assms(3) by simp
  show ?thesis
  proof (cases "unat t \<le> unat h")
    case True
    then have d: "unat (h - t) = unat h - unat t" by (simp add: unat_sub_u32)
    then have "\<not> sint (h - t) < 0" using hc c by (simp add: sint_neg_iff)
    then show ?thesis using True d by (simp add: Let_def)
  next
    case False
    then have d: "unat (h - t) = unat h + 4294967296 - unat t" by (simp add: unat_sub_u32)
    then have neg: "sint (h - t) < 0" using hc tc c False by (simp add: sint_neg_iff)
    have "unat (h - t + c) = (unat h + 4294967296 - unat t + unat c) mod 4294967296"
      by (simp add: unat_add_u32 d)
    also have "\<dots> = unat h + 4294967296 - unat t + unat c - 4294967296"
      using False hc tc c by (intro mod_wrap2) simp_all
    also have "\<dots> = unat h + unat c - unat t"
      using False hc tc c by simp
    finally show ?thesis using False neg by (simp add: Let_def)
  qed
qed

lemma ring_distance_mod:
  fixes h t c :: u32
  assumes "h < c" "t < c" "unat c \<le> 2 ^ 31"
  shows "unat (let d = h - t in if sint d < 0 then d + c else d) = (unat h + unat c - unat t) mod unat c"
    and "unat (let d = h - t in if sint d < 0 then d + c else d) < unat c"
proof -
  have hc: "unat h < unat c" and tc: "unat t < unat c"
    using assms by (simp_all add: word_less_nat_alt)
  have "(unat h + unat c - unat t) mod unat c =
          (if unat t \<le> unat h then unat h - unat t else unat h + unat c - unat t)"
  proof (cases "unat t \<le> unat h")
    case True
    then have "(unat h + unat c - unat t) mod unat c = unat h + unat c - unat t - unat c"
      using hc tc by (intro mod_wrap2) simp_all
    then show ?thesis using True by simp
  next
    case False
    then show ?thesis using hc tc by simp
  qed
  then show "unat (let d = h - t in if sint d < 0 then d + c else d) = (unat h + unat c - unat t) mod unat c"
    using ring_distance [OF assms] by simp
  show "unat (let d = h - t in if sint d < 0 then d + c else d) < unat c"
    using ring_distance [OF assms] hc tc by (simp split: if_splits)
qed

text \<open>
  The run the interrupt handler arms never makes the sum with the tail wrap around,
  whatever the capacity.
\<close>

lemma irq_run_no_wrap:
  fixes h t c :: u32
  assumes "h < c" "t < c"
  defines "u \<equiv> (let d = h - t in if sint d < 0 then d + c else d)"
  defines "n \<equiv> (if h < t then c - t else u)"
  shows "unat t + unat n < 4294967296"
proof -
  have hc: "unat h < unat c" and tc: "unat t < unat c"
    using assms by (simp_all add: word_less_nat_alt)
  have c: "unat c < 4294967296" by (rule unat_u32_less)
  show ?thesis
  proof (cases "h < t")
    case True
    then have "unat n = unat c - unat t" using tc by (simp add: n_def unat_sub_u32)
    then show ?thesis using tc c by simp
  next
    case False
    then have le: "unat t \<le> unat h" by (simp add: word_less_nat_alt)
    then have d: "unat (h - t) = unat h - unat t" by (simp add: unat_sub_u32)
    show ?thesis
    proof (cases "sint (h - t) < 0")
      case neg: True
      then have big: "2147483648 \<le> unat h - unat t" using d by (simp add: sint_neg_iff)
      have "unat (h - t + c) = (unat h - unat t + unat c) mod 4294967296"
        by (simp add: unat_add_u32 d)
      also have "\<dots> = unat h - unat t + unat c - 4294967296"
        using big hc c by (intro mod_wrap2) simp_all
      finally have "unat n = unat h - unat t + unat c - 4294967296"
        using False neg by (simp add: n_def u_def Let_def)
      then show ?thesis using big hc c le by simp
    next
      case pos: False
      then have "unat n = unat h - unat t" using False d by (simp add: n_def u_def Let_def)
      then show ?thesis using le unat_u32_less [of h] by simp
    qed
  qed
qed

subsection \<open>The transmit flag\<close>

lemma inc_tail_in_progress:
  "increment_tx_buffer_tail_index k s = Inr s' \<Longrightarrow> pdc_Tx_in_progress s' = pdc_Tx_in_progress s"
  by (auto simp: increment_tx_buffer_tail_index_def split: if_splits)

lemma initiate_in_progress [simp]:
  "pdc_Tx_in_progress (initiate_PDC_Tx i k s) = pdc_Tx_in_progress s"
  by (simp add: initiate_PDC_Tx_def HAL_PDC_TX_INIT_NO_NEXT_def)

lemma copy_packet_in_progress:
  assumes "copy_packet_into_Tx_buffer_and_transmit d n s = Inr s'"
  shows "pdc_Tx_in_progress s'"
proof -
  from assms obtain s2 k i where fin:
    "(if \<not> pdc_Tx_in_progress s2
      then then_do (increment_tx_buffer_tail_index k (s2\<lparr>pdc_Tx_in_progress := True\<rparr>))
             (\<lambda>s3. Inr (initiate_PDC_Tx i k s3))
      else Inr s2) = Inr s'"
    unfolding copy_packet_into_Tx_buffer_and_transmit_def Let_def then_do_eq_Inr by blast
  show ?thesis
  proof (cases "pdc_Tx_in_progress s2")
    case True
    with fin show ?thesis by simp
  next
    case False
    with fin obtain s3 where "increment_tx_buffer_tail_index k (s2\<lparr>pdc_Tx_in_progress := True\<rparr>) = Inr s3"
      and "s' = initiate_PDC_Tx i k s3"
      by (auto simp: then_do_eq_Inr)
    then show ?thesis using inc_tail_in_progress [of k "s2\<lparr>pdc_Tx_in_progress := True\<rparr>" s3] by simp
  qed
qed

lemma irq_idle_means_sent:
  assumes "idle_means_sent s" "serial_circular_buffer_irq_handler s = Inr s'"
  shows "idle_means_sent s'"
  using assms
  unfolding serial_circular_buffer_irq_handler_def Let_def then_do_eq_Inr idle_means_sent_def
  by (auto simp: HAL_PDC_RX_INIT_NO_NEXT_def get_number_of_unsent_bytes_def Let_def
      increment_tx_buffer_tail_index_def initiate_PDC_Tx_def HAL_PDC_TX_INIT_NO_NEXT_def
      split: if_splits)

lemma get_latest_byte_idle_means_sent:
  assumes "idle_means_sent s" "get_latest_byte s = Inr (b, s')"
  shows "idle_means_sent s'"
  using assms
  unfolding get_latest_byte_def then_do_eq_Inr idle_means_sent_def
  by (auto simp: increment_rx_buffer_tail_index_def get_number_of_unsent_bytes_def Let_def
      split: if_splits)

lemma init_idle_means_sent:
  assumes "init clk port rxp rxm rxn txp txm txn baud par s0 = Inr s"
  shows "idle_means_sent s"
  using assms
  unfolding init_def Let_def then_do_eq_Inr idle_means_sent_def
  by (auto simp: HAL_UART_INITIAILZE_def HAL_PDC_RX_INIT_NO_NEXT_def
      get_number_of_unsent_bytes_def Let_def split: if_splits)

lemma hardware_idle_means_sent:
  "idle_means_sent s \<Longrightarrow> idle_means_sent (hardware_step rcr tcr a b m s)"
  by (auto simp: idle_means_sent_def hardware_step_def get_number_of_unsent_bytes_def Let_def
      split: if_splits)

lemma reachable_idle_means_sent: "reachable s \<Longrightarrow> idle_means_sent s"
proof (induction rule: reachable.induct)
  case (after_init clk port rxp rxm rxn txp txm txn baud par s0 s)
  then show ?case by (rule init_idle_means_sent)
next
  case (after_get_latest_byte s b s')
  then show ?case by (blast intro: get_latest_byte_idle_means_sent)
next
  case (after_copy_packet s n d s')
  then show ?case by (simp add: idle_means_sent_def copy_packet_in_progress)
next
  case (after_irq s s')
  then show ?case by (blast intro: irq_idle_means_sent)
next
  case (after_hardware s m rcr tcr rxbuff txbufe)
  then show ?case by (simp add: hardware_idle_means_sent)
qed

subsection \<open>The instance pointers\<close>

lemma on_object_pointers:
  "on_object this f sys = Inr sys' \<Longrightarrow>
   UART0_ISR_instance_ptr sys' = UART0_ISR_instance_ptr sys \<and>
   UART1_ISR_instance_ptr sys' = UART1_ISR_instance_ptr sys"
  by (auto simp: on_object_def then_do_eq_Inr)

lemma system_init_pointers:
  assumes "system_init this clk port rxp rxm rxn txp txm txn baud par sys = Inr sys'"
  shows "UART0_ISR_instance_ptr sys' = (if port = UART_PORT_0 then Some this else UART0_ISR_instance_ptr sys)"
    and "UART1_ISR_instance_ptr sys' = (if port = UART_PORT_1 then Some this else UART1_ISR_instance_ptr sys)"
  using assms on_object_pointers
    [of this "init clk port rxp rxm rxn txp txm txn baud par" _ sys']
  by (auto simp: system_init_def Let_def split: if_splits)

lemma system_step_pointers:
  assumes "system_step c sys = Inr sys'"
  shows "UART0_ISR_instance_ptr sys' =
           (case c of Call_init this clk port rxp rxm rxn txp txm txn baud par \<Rightarrow>
              if port = UART_PORT_0 then Some this else UART0_ISR_instance_ptr sys
            | _ \<Rightarrow> UART0_ISR_instance_ptr sys)"
    and "UART1_ISR_instance_ptr sys' =
           (case c of Call_init this clk port rxp rxm rxn txp txm txn baud par \<Rightarrow>
              if port = UART_PORT_1 then Some this else UART1_ISR_instance_ptr sys
            | _ \<Rightarrow> UART1_ISR_instance_ptr sys)"
  using assms
  by (cases c; auto simp: UART0_Handler_def UART1_Handler_def
        dest: system_init_pointers on_object_pointers split: option.splits)+

lemma system_run_keeps_null:
  assumes "system_run cs sys = Inr sys'"
  shows "list_all (\<lambda>c. \<not> inits_port UART_PORT_0 c) cs \<Longrightarrow> UART0_ISR_instance_ptr sys = None \<Longrightarrow>
           UART0_ISR_instance_ptr sys' = None"
    and "list_all (\<lambda>c. \<not> inits_port UART_PORT_1 c) cs \<Longrightarrow> UART1_ISR_instance_ptr sys = None \<Longrightarrow>
           UART1_ISR_instance_ptr sys' = None"
  using assms
proof (induction cs arbitrary: sys)
  case Nil
  { case 1 then show ?case by simp }
  { case 2 then show ?case by simp }
next
  case (Cons c cs)
  { case 1
    from 1(3) obtain sys1 where st: "system_step c sys = Inr sys1" and rn: "system_run cs sys1 = Inr sys'"
      by (auto simp: then_do_eq_Inr)
    from 1(1,2) system_step_pointers(1) [OF st] have "UART0_ISR_instance_ptr sys1 = None"
      by (cases c) auto
    with Cons.IH(1) [OF _ _ rn] 1(1) show ?case by simp }
  { case 2
    from 2(3) obtain sys1 where st: "system_step c sys = Inr sys1" and rn: "system_run cs sys1 = Inr sys'"
      by (auto simp: then_do_eq_Inr)
    from 2(1,2) system_step_pointers(2) [OF st] have "UART1_ISR_instance_ptr sys1 = None"
      by (cases c) auto
    with Cons.IH(2) [OF _ _ rn] 2(1) show ?case by simp }
qed

lemma system_run_keeps_set:
  assumes "system_run cs sys = Inr sys'"
  shows "UART0_ISR_instance_ptr sys \<noteq> None \<Longrightarrow> UART0_ISR_instance_ptr sys' \<noteq> None"
    and "UART1_ISR_instance_ptr sys \<noteq> None \<Longrightarrow> UART1_ISR_instance_ptr sys' \<noteq> None"
  using assms
proof (induction cs arbitrary: sys)
  case Nil
  { case 1 then show ?case by simp }
  { case 2 then show ?case by simp }
next
  case (Cons c cs)
  { case 1
    from 1(2) obtain sys1 where st: "system_step c sys = Inr sys1" and rn: "system_run cs sys1 = Inr sys'"
      by (auto simp: then_do_eq_Inr)
    from 1(1) system_step_pointers(1) [OF st] have "UART0_ISR_instance_ptr sys1 \<noteq> None"
      by (cases c) auto
    with Cons.IH(1) [OF _ rn] show ?case by simp }
  { case 2
    from 2(2) obtain sys1 where st: "system_step c sys = Inr sys1" and rn: "system_run cs sys1 = Inr sys'"
      by (auto simp: then_do_eq_Inr)
    from 2(1) system_step_pointers(2) [OF st] have "UART1_ISR_instance_ptr sys1 \<noteq> None"
      by (cases c) auto
    with Cons.IH(2) [OF _ rn] show ?case by simp }
qed

subsection \<open>Storing a packet\<close>

text \<open>The words of one call, read as natural numbers.\<close>

lemma copy_packet_words:
  fixes head n size :: u32
  assumes "head < size" "unat size \<le> 2 ^ 31" "unat n \<le> unat size"
  shows "unat (n + head) = unat n + unat head"
    and "size < n + head \<longleftrightarrow> unat size < unat head + unat n"
    and "size < n + head \<Longrightarrow> unat (size - head) = unat size - unat head"
    and "size < n + head \<Longrightarrow> unat (n + head - size) = unat head + unat n - unat size"
    and "size < n + head \<Longrightarrow> (head + (size - head)) mod size = 0"
    and "size < n + head \<Longrightarrow> (n + head - size) mod size = n + head - size"
    and "\<not> size < n + head \<Longrightarrow> unat ((head + n) mod size) = (unat head + unat n) mod unat size"
proof -
  have h: "unat head < unat size" using assms(1) by (simp add: word_less_nat_alt)
  have c: "unat size \<le> 2147483648" using assms(2) by simp
  have s': "unat (head + n) = unat head + unat n"
    using h c assms(3) by (simp add: unat_add_u32)
  then show s: "unat (n + head) = unat n + unat head"
    by (simp add: add.commute)
  show r: "size < n + head \<longleftrightarrow> unat size < unat head + unat n"
    using s' by (simp add: word_less_nat_alt add.commute)
  show "unat (size - head) = unat size - unat head" if "size < n + head"
    using h by (simp add: unat_sub_u32)
  show u2: "unat (n + head - size) = unat head + unat n - unat size" if "size < n + head"
    using that r s by (simp add: unat_sub_u32)
  show "(head + (size - head)) mod size = 0" if "size < n + head"
    by simp
  show "(n + head - size) mod size = n + head - size" if "size < n + head"
  proof -
    have "unat (n + head - size) < unat size" using u2 [OF that] h assms(3) r that by simp
    then show ?thesis by (simp add: word_less_nat_alt mod_word_less)
  qed
  show "unat ((head + n) mod size) = (unat head + unat n) mod unat size" if "\<not> size < n + head"
    using s' by (simp add: unat_mod_u32)
qed


lemma drop_exact: "length xs = n \<Longrightarrow> drop n (xs @ ys) = ys"
  by simp

lemma ring_write_flat:
  assumes "H + K \<le> length mem" "K \<le> length d"
  shows "ring_write mem H (take K d) = take H mem @ take K d @ drop (H + K) mem"
    and "memcpy mem H d 0 K = Inr (ring_write mem H (take K d))"
    and "take K (drop H (ring_write mem H (take K d))) = take K d"
    and "length (ring_write mem H (take K d)) = length mem"
proof -
  have l: "length (take K d) = K" using assms(2) by simp
  show rw: "ring_write mem H (take K d) = take H mem @ take K d @ drop (H + K) mem"
    unfolding ring_write_def l using assms(1) by simp
  show "memcpy mem H d 0 K = Inr (ring_write mem H (take K d))"
    unfolding rw using assms by (simp add: memcpy_def)
  have lh: "length (take H mem) = H" using assms(1) by simp
  show "take K (drop H (ring_write mem H (take K d))) = take K d"
    unfolding rw using lh l by (simp del: length_take)
  show "length (ring_write mem H (take K d)) = length mem"
    unfolding rw using assms by simp
qed

lemma ring_write_wrap:
  assumes "H < length mem" "length mem < H + K" "K \<le> length mem" "K \<le> length d"
  shows "ring_write mem H (take K d) =
           take (H + K - length mem) (drop (length mem - H) d) @
           drop (H + K - length mem) (take H mem) @ take (length mem - H) d"
    and "memcpy mem H d 0 (length mem - H) = Inr (take H mem @ take (length mem - H) d)"
    and "memcpy (take H mem @ take (length mem - H) d) 0 d (length mem - H) (H + K - length mem) =
           Inr (ring_write mem H (take K d))"
    and "take (length mem - H) (drop H (ring_write mem H (take K d))) = take (length mem - H) d"
    and "length (ring_write mem H (take K d)) = length mem"
proof -
  let ?C = "length mem"
  have a: "K - (?C - H) = H + K - ?C" using assms by arith
  have b: "min (?C - H) K = ?C - H" using assms by arith
  have l: "length (take K d) = K" using assms(4) by simp
  have lh: "length (take H mem) = H" using assms(1) by simp
  have l1: "length (take (?C - H) d) = ?C - H" using assms by simp
  have l2: "length (take (H + K - ?C) (drop (?C - H) d)) = H + K - ?C" using assms by simp
  have l3: "length (drop (H + K - ?C) (take H mem)) = ?C - K" using assms by simp
  show rw: "ring_write mem H (take K d) =
           take (H + K - ?C) (drop (?C - H) d) @
           drop (H + K - ?C) (take H mem) @ take (?C - H) d"
    unfolding ring_write_def l using assms(2) by (simp add: drop_take a b del: length_take)
  show "memcpy mem H d 0 (?C - H) = Inr (take H mem @ take (?C - H) d)"
    using assms by (simp add: memcpy_def)
  have le: "H + K - ?C \<le> H" using assms by arith
  have "drop (H + K - ?C) (take H mem @ take (?C - H) d) =
          drop (H + K - ?C) (take H mem) @ take (?C - H) d"
    using le lh by (simp del: length_take)
  then show "memcpy (take H mem @ take (?C - H) d) 0 d (?C - H) (H + K - ?C) =
           Inr (ring_write mem H (take K d))"
    unfolding rw using assms lh l1 by (simp add: memcpy_def del: length_take)
  have "drop H (take (H + K - ?C) (drop (?C - H) d) @ drop (H + K - ?C) (take H mem) @ take (?C - H) d) =
          take (?C - H) d"
  proof -
    let ?A = "take (H + K - ?C) (drop (?C - H) d)" and ?B = "drop (H + K - ?C) (take H mem)"
    have "length (?A @ ?B) = H" using assms by simp
    then have "drop H ((?A @ ?B) @ take (?C - H) d) = take (?C - H) d"
      by (rule drop_exact)
    then show ?thesis by simp
  qed
  then show "take (?C - H) (drop H (ring_write mem H (take K d))) = take (?C - H) d"
    unfolding rw by simp
  show "length (ring_write mem H (take K d)) = ?C"
    unfolding rw using assms by simp
qed

lemma copy_packet_result:
  assumes ok: "tx_indices_ok s" "tx_region_ok s"
    and cap: "unat (tx_buffer_size s) \<le> 2 ^ 31"
    and n: "unat n \<le> unat (tx_buffer_size s)"
    and data: "unat n \<le> length d"
  shows "copy_packet_into_Tx_buffer_and_transmit d n s =
     Inr (let first = (if tx_buffer_size s < n + tx_buffer_head_index s
                       then tx_buffer_size s - tx_buffer_head_index s else n);
              s1 = s\<lparr>tx_mem := ring_write (tx_mem s) (unat (tx_buffer_head_index s)) (take (unat n) d),
                     tx_buffer_head_index :=
                       (if tx_buffer_size s < n + tx_buffer_head_index s
                        then n + tx_buffer_head_index s - tx_buffer_size s
                        else (tx_buffer_head_index s + n) mod tx_buffer_size s)\<rparr>
          in if pdc_Tx_in_progress s then s1
             else s1\<lparr>pdc_Tx_in_progress := True,
                     tx_buffer_tail_index := (tx_buffer_tail_index s + first) mod tx_buffer_size s,
                     periph_tpr := pdc_tx_buffer s + tx_buffer_head_index s,
                     periph_tcr := first,
                     txbufe_irq_enabled := True,
                     tx_armed_runs := tx_armed_runs s @ [take (unat first) (take (unat n) d)],
                     tail_when_armed := tail_when_armed s @
                       [(tx_buffer_tail_index s + first) mod tx_buffer_size s]\<rparr>)"
proof -
  let ?h = "tx_buffer_head_index s" and ?c = "tx_buffer_size s"
  have h: "?h < ?c" using ok(1) by (simp add: tx_indices_ok_def)
  then have nz: "?c \<noteq> 0" by auto
  have hn: "unat ?h < unat ?c" using h by (simp add: word_less_nat_alt)
  have len: "length (tx_mem s) = unat ?c" using ok(2) by (simp add: tx_region_ok_def)
  note w = copy_packet_words [OF h cap n]
  show ?thesis
  proof (cases "?c < n + ?h")
    case True
    note r = w(3) [OF True] w(4) [OF True] w(5) [OF True] w(6) [OF True]
    have gt: "unat ?c < unat ?h + unat n" using True w(2) by simp
    note rw = ring_write_wrap [of "unat ?h" "tx_mem s" "unat n" d, unfolded len, OF hn gt n data]
    have mn: "min (unat ?c - unat ?h) (unat n) = unat ?c - unat ?h" using gt hn by arith
    show ?thesis
      using True nz mn
      by (simp add: copy_packet_into_Tx_buffer_and_transmit_def Let_def
        increment_tx_buffer_head_index_def increment_tx_buffer_tail_index_def r rw(2-5)
        initiate_PDC_Tx_def HAL_PDC_TX_INIT_NO_NEXT_def)
  next
    case False
    have le: "unat ?h + unat n \<le> unat ?c" using False w(2) by simp
    note rw = ring_write_flat [of "unat ?h" "unat n" "tx_mem s" d, unfolded len, OF le data]
    show ?thesis
      using False nz
      by (simp add: copy_packet_into_Tx_buffer_and_transmit_def Let_def
        increment_tx_buffer_head_index_def increment_tx_buffer_tail_index_def rw(2-4)
        initiate_PDC_Tx_def HAL_PDC_TX_INIT_NO_NEXT_def)
  qed
qed

lemma ring_pos:
  fixes H C j :: nat
  assumes "H < C" "j < C"
  shows "(H + j) mod C = (if H + j < C then H + j else H + j - C)"
  using assms by (auto simp: mod_wrap2)

lemma ring_write_length:
  assumes "H < length mem" "length d \<le> length mem"
  shows "length (ring_write mem H d) = length mem"
  using assms by (auto simp: ring_write_def)

lemma ring_write_new:
  assumes "H < length mem" "length d \<le> length mem" "j < length d"
  shows "ring_write mem H d ! ((H + j) mod length mem) = d ! j"
proof (cases "length mem < H + length d")
  case False
  then have p: "(H + j) mod length mem = H + j" using assms by simp
  show ?thesis
    unfolding p using False assms by (simp add: ring_write_def nth_append)
next
  case True
  show ?thesis
  proof (cases "H + j < length mem")
    case lo: True
    then have p: "(H + j) mod length mem = H + j" by simp
    have "(drop (length mem - H) d @ drop (H + length d - length mem) (take H mem) @
            take (length mem - H) d) ! (H + j) =
          ((drop (length mem - H) d @ drop (H + length d - length mem) (take H mem)) @
            take (length mem - H) d) ! (H + j)"
      by simp
    also have "\<dots> = take (length mem - H) d ! (H + j - H)"
      using True assms lo by (subst nth_append) (simp del: append_assoc)
    also have "\<dots> = d ! j" using lo by simp
    finally show ?thesis unfolding p using True by (simp add: ring_write_def)
  next
    case hi: False
    then have p: "(H + j) mod length mem = H + j - length mem"
      using assms by (simp add: mod_wrap2)
    have "H + j - length mem < length (drop (length mem - H) d)"
      using True assms hi by simp
    then have "(drop (length mem - H) d @ drop (H + length d - length mem) (take H mem) @
            take (length mem - H) d) ! (H + j - length mem) =
          drop (length mem - H) d ! (H + j - length mem)"
      by (simp only: nth_append if_True)
    also have "\<dots> = d ! j" using True assms hi by simp
    finally show ?thesis unfolding p using True by (simp add: ring_write_def)
  qed
qed

lemma ring_write_old_flat:
  assumes H: "H < length mem" and K: "length d \<le> length mem" and p: "p < length mem"
    and other: "\<forall>j<length d. p \<noteq> (H + j) mod length mem"
    and False: "\<not> length mem < H + length d"
  shows "ring_write mem H d ! p = mem ! p"
proof -
  have out: "p < H \<or> H + length d \<le> p"
  proof (rule ccontr)
    assume "\<not> (p < H \<or> H + length d \<le> p)"
    then have j: "p - H < length d" and e: "H + (p - H) = p" by arith+
    have "(H + (p - H)) mod length mem = p mod length mem" by (simp only: e)
    then have eq: "(H + (p - H)) mod length mem = p" using p by (simp only: mod_less)
    from other [rule_format, OF j] eq [symmetric] show False by (rule notE)
  qed
  have rw: "ring_write mem H d = take H mem @ d @ drop (H + length d) mem"
    using False by (simp add: ring_write_def)
  have lh: "length (take H mem) = H" using H by simp
  from out show ?thesis
  proof
    assume "p < H"
    then show ?thesis unfolding rw using lh by (simp add: nth_append del: length_take)
  next
    assume a: "H + length d \<le> p"
    then have i: "\<not> p < H" "\<not> p - H < length d" "H + length d + (p - H - length d) = p" by arith+
    have "(take H mem @ d @ drop (H + length d) mem) ! p = drop (H + length d) mem ! (p - H - length d)"
      using i(1,2) lh by (simp add: nth_append del: length_take)
    also have "\<dots> = mem ! (H + length d + (p - H - length d))"
      using False by (intro nth_drop) simp
    also have "\<dots> = mem ! p" by (simp only: i(3))
    finally show ?thesis unfolding rw .
  qed
qed


lemma ring_write_old_wrap:
  assumes H: "H < length mem" and K: "length d \<le> length mem" and p: "p < length mem"
    and other: "\<forall>j<length d. p \<noteq> (H + j) mod length mem"
    and True: "length mem < H + length d"
  shows "ring_write mem H d ! p = mem ! p"
proof -
  let ?s = "H + length d - length mem"
  have lo: "?s \<le> p"
  proof (rule ccontr)
    assume "\<not> ?s \<le> p"
    then have j: "p + length mem - H < length d" using H by arith
    have e: "H + (p + length mem - H) = p + length mem" using H by arith
    have "(H + (p + length mem - H)) mod length mem = (p + length mem) mod length mem"
      by (simp only: e)
    then have eq: "(H + (p + length mem - H)) mod length mem = p" using p by simp
    from other [rule_format, OF j] eq [symmetric] show False by (rule notE)
  qed
  have hi: "p < H"
  proof (rule ccontr)
    assume "\<not> p < H"
    then have j: "p - H < length d" and e: "H + (p - H) = p" using p True by arith+
    have "(H + (p - H)) mod length mem = p mod length mem" by (simp only: e)
    then have eq: "(H + (p - H)) mod length mem = p" using p by (simp only: mod_less)
    from other [rule_format, OF j] eq [symmetric] show False by (rule notE)
  qed
  have rw: "ring_write mem H d =
      drop (length mem - H) d @ drop ?s (take H mem) @ take (length mem - H) d"
    using True by (simp add: ring_write_def)
  have l1: "length (drop (length mem - H) d) = ?s" using True H by simp
  have l2: "length (drop ?s (take H mem)) = H - ?s" using H by simp
  have i: "\<not> p < ?s" "p - ?s < H - ?s" "?s + (p - ?s) = p" using lo hi by arith+
  have "(drop (length mem - H) d @ drop ?s (take H mem) @ take (length mem - H) d) ! p =
        (drop ?s (take H mem) @ take (length mem - H) d) ! (p - ?s)"
    using i(1) l1 by (simp add: nth_append del: length_drop)
  also have "\<dots> = drop ?s (take H mem) ! (p - ?s)"
    using i(2) l2 by (simp add: nth_append del: length_drop length_take)
  also have "\<dots> = take H mem ! (?s + (p - ?s))"
    using K H by (intro nth_drop) simp
  also have "\<dots> = take H mem ! p" by (simp only: i(3))
  also have "\<dots> = mem ! p" using hi by simp
  finally show ?thesis unfolding rw .
qed

lemma ring_write_old:
  assumes "H < length mem" and "length d \<le> length mem" and "p < length mem"
    and "\<forall>j<length d. p \<noteq> (H + j) mod length mem"
  shows "ring_write mem H d ! p = mem ! p"
  using ring_write_old_flat [OF assms] ring_write_old_wrap [OF assms] by (cases "length mem < H + length d")

lemma ring_write_segments:
  assumes H: "H < length mem" and K: "length d \<le> length mem"
  defines "first \<equiv> (if length mem < H + length d then length mem - H else length d)"
  shows "length (ring_write mem H d) = length mem"
    and "take first (drop H (ring_write mem H d)) = take first d"
    and "take (length d - first) (ring_write mem H d) = drop first d"
    and "\<forall>p<length mem. length d - first \<le> p \<and> (p < H \<or> H + first \<le> p) \<longrightarrow>
           ring_write mem H d ! p = mem ! p"
proof -
  show "length (ring_write mem H d) = length mem" using H K by (rule ring_write_length)
  show "take first (drop H (ring_write mem H d)) = take first d"
  proof (cases "length mem < H + length d")
    case True
    then show ?thesis
      using ring_write_wrap(4) [OF H True K, of d] by (simp add: first_def)
  next
    case False
    then show ?thesis
      using ring_write_flat(3) [of H "length d" mem d] by (simp add: first_def)
  qed
  show "take (length d - first) (ring_write mem H d) = drop first d"
  proof (cases "length mem < H + length d")
    case True
    then have "length d - first = length (drop (length mem - H) d)" by (simp add: first_def)
    then show ?thesis using True by (simp add: first_def ring_write_def del: length_drop)
  next
    case False
    then show ?thesis by (simp add: first_def)
  qed
  show "\<forall>p<length mem. length d - first \<le> p \<and> (p < H \<or> H + first \<le> p) \<longrightarrow>
           ring_write mem H d ! p = mem ! p"
  proof (intro allI impI)
    fix p
    assume p: "p < length mem" and out: "length d - first \<le> p \<and> (p < H \<or> H + first \<le> p)"
    have "\<forall>j<length d. p \<noteq> (H + j) mod length mem"
    proof (intro allI impI)
      fix j
      assume j: "j < length d"
      then have jl: "j < length mem" using K by simp
      show "p \<noteq> (H + j) mod length mem"
        unfolding ring_pos [OF H jl] using out j p H K by (auto simp: first_def split: if_splits)
    qed
    with H K p show "ring_write mem H d ! p = mem ! p" by (rule ring_write_old)
  qed
qed

subsection \<open>The invariant of the ring\<close>

lemma ring_inj:
  fixes a b c h0 :: nat
  assumes "h0 < c" "a < c" "b < c" "(h0 + a) mod c = (h0 + b) mod c"
  shows "a = b"
  using assms(4) unfolding ring_pos [OF assms(1,2)] ring_pos [OF assms(1,3)]
  using assms(1-3) by (auto split: if_splits)

lemma ring_dist:
  fixes t c \<delta> h :: nat
  assumes "t < c" "\<delta> < c" "h = (t + \<delta>) mod c"
  shows "(if t \<le> h then h - t else h + c - t) = \<delta>" and "h < t \<longleftrightarrow> c \<le> t + \<delta>"
proof -
  have h: "h = (if t + \<delta> < c then t + \<delta> else t + \<delta> - c)"
    unfolding assms(3) using assms(1,2) by (rule ring_pos)
  show "(if t \<le> h then h - t else h + c - t) = \<delta>"
    unfolding h using assms(1,2) by auto
  show "h < t \<longleftrightarrow> c \<le> t + \<delta>"
    unfolding h using assms(1,2) by auto
qed

lemma irq_transmit_result:
  assumes "sr_txbufe s" and "tx_indices_ok s"
  shows "(let s1 = (if sr_rxbuff s
                    then s\<lparr>periph_rpr := rx_buffer s, periph_rcr := rx_buffer_size s\<rparr> else s);
              n = (if tx_buffer_head_index s < tx_buffer_tail_index s
                   then tx_buffer_size s - tx_buffer_tail_index s
                   else get_number_of_unsent_bytes s)
          in (get_number_of_unsent_bytes s = 0 \<longrightarrow>
                serial_circular_buffer_irq_handler s =
                  Inr (s1\<lparr>pdc_Tx_in_progress := False, txbufe_irq_enabled := False\<rparr>)) \<and>
             (get_number_of_unsent_bytes s \<noteq> 0 \<longrightarrow>
                serial_circular_buffer_irq_handler s =
                  Inr (s1\<lparr>periph_tpr := pdc_tx_buffer s + tx_buffer_tail_index s,
                           periph_tcr := n,
                           txbufe_irq_enabled := True,
                           tx_armed_runs := tx_armed_runs s @
                             [take (unat n) (drop (unat (tx_buffer_tail_index s)) (tx_mem s))],
                           tail_when_armed := tail_when_armed s @ [tx_buffer_tail_index s],
                           tx_buffer_tail_index := (tx_buffer_tail_index s + n) mod tx_buffer_size s,
                           pdc_Tx_in_progress := True\<rparr>) \<and>
                unat ((tx_buffer_tail_index s + n) mod tx_buffer_size s) =
                  (unat (tx_buffer_tail_index s) + unat n) mod unat (tx_buffer_size s)))"
proof -
  have h: "tx_buffer_head_index s < tx_buffer_size s" and t: "tx_buffer_tail_index s < tx_buffer_size s"
    using assms(2) by (simp_all add: tx_indices_ok_def)
  then have nz: "tx_buffer_size s \<noteq> 0" by auto
  have nw: "unat (tx_buffer_tail_index s) +
            unat (if tx_buffer_head_index s < tx_buffer_tail_index s
                  then tx_buffer_size s - tx_buffer_tail_index s
                  else get_number_of_unsent_bytes s) < 4294967296"
    unfolding get_number_of_unsent_bytes_def by (rule irq_run_no_wrap [OF h t])
  have un: "get_number_of_unsent_bytes (s\<lparr>periph_rpr := a, periph_rcr := b\<rparr>) = get_number_of_unsent_bytes s" for a b
    by (simp add: get_number_of_unsent_bytes_def Let_def)
  show ?thesis
    using assms(1) nz nw
    by (simp add: Let_def serial_circular_buffer_irq_handler_def HAL_PDC_RX_INIT_NO_NEXT_def un
        initiate_PDC_Tx_def HAL_PDC_TX_INIT_NO_NEXT_def increment_tx_buffer_tail_index_def
        unat_mod_u32 unat_add_u32)
qed

lemma ring_run:
  assumes mem: "\<forall>i<length E. mem ! ((h0 + i) mod c) = E ! i" and len: "length mem = c"
    and t: "t = (h0 + k) mod c" and tn: "t + n \<le> c" and kn: "k + n \<le> length E"
  shows "take n (drop t mem) = take n (drop k E)"
proof (rule nth_equalityI)
  show "length (take n (drop t mem)) = length (take n (drop k E))"
    using len tn kn by simp
next
  fix i
  assume "i < length (take n (drop t mem))"
  then have i: "i < n" by simp
  then have ti: "t + i < c" and ki: "k + i < length E" using tn kn by simp_all
  have "(h0 + (k + i)) mod c = ((h0 + k) mod c + i) mod c"
    by (simp add: mod_add_left_eq add.assoc)
  also have "\<dots> = t + i" using ti by (simp add: t)
  finally have p: "(h0 + (k + i)) mod c = t + i" .
  have "take n (drop t mem) ! i = mem ! (t + i)" using i ti len by simp
  also have "\<dots> = mem ! ((h0 + (k + i)) mod c)" by (simp only: p)
  also have "\<dots> = E ! (k + i)" by (rule mem [rule_format, OF ki])
  also have "\<dots> = take n (drop k E) ! i" using i ki by simp
  finally show "take n (drop t mem) ! i = take n (drop k E) ! i" .
qed


lemma inv_indices_ok:
  assumes "tx_ring_inv c h0 E R0 k s"
  shows "tx_indices_ok s" and "tx_region_ok s" and "unat (tx_buffer_size s) \<le> 2 ^ 31"
proof -
  from assms have c: "unat (tx_buffer_size s) = c" and p: "0 < c"
    and h: "unat (tx_buffer_head_index s) = (h0 + length E) mod c"
    and t: "unat (tx_buffer_tail_index s) = (h0 + k) mod c"
    by (auto simp: tx_ring_inv_def)
  show "tx_indices_ok s"
    using p by (simp add: tx_indices_ok_def word_less_nat_alt c h t)
  show "tx_region_ok s" using assms by (simp add: tx_region_ok_def tx_ring_inv_def)
  show "unat (tx_buffer_size s) \<le> 2 ^ 31" using assms by (simp add: tx_ring_inv_def)
qed

lemma inv_frame:
  assumes "tx_ring_inv c h0 E R0 k s"
    and "tx_buffer_size s' = tx_buffer_size s" "tx_mem s' = tx_mem s"
    and "tx_buffer_head_index s' = tx_buffer_head_index s"
    and "tx_buffer_tail_index s' = tx_buffer_tail_index s"
    and "tx_armed_runs s' = tx_armed_runs s"
    and "pdc_Tx_in_progress s' = pdc_Tx_in_progress s"
  shows "tx_ring_inv c h0 E R0 k s'"
  using assms by (simp add: tx_ring_inv_def)

lemma inv_unsent:
  assumes inv: "tx_ring_inv c h0 E R0 k s"
  shows "unat (get_number_of_unsent_bytes s) = length E - k"
    and "tx_buffer_head_index s < tx_buffer_tail_index s \<longleftrightarrow>
           c \<le> unat (tx_buffer_tail_index s) + (length E - k)"
    and "length E - k < c"
proof -
  from inv have c: "unat (tx_buffer_size s) = c" and cb: "c \<le> 2 ^ 31" and h0: "h0 < c"
    and k: "k \<le> length E" and e: "length E \<le> c"
    and dk: "length E - k < c"
    and h: "unat (tx_buffer_head_index s) = (h0 + length E) mod c"
    and t: "unat (tx_buffer_tail_index s) = (h0 + k) mod c"
    by (auto simp: tx_ring_inv_def)
  show d: "length E - k < c" by (rule dk)
  have tc: "unat (tx_buffer_tail_index s) < c" using h0 by (simp add: t)
  have "(h0 + length E) mod c = (h0 + k + (length E - k)) mod c" using k by simp
  also have "\<dots> = ((h0 + k) mod c + (length E - k)) mod c" by (simp add: mod_add_left_eq)
  finally have hd: "unat (tx_buffer_head_index s) = (unat (tx_buffer_tail_index s) + (length E - k)) mod c"
    by (simp add: h t)
  note ok = inv_indices_ok [OF inv]
  have "unat (get_number_of_unsent_bytes s) =
      (if unat (tx_buffer_tail_index s) \<le> unat (tx_buffer_head_index s)
       then unat (tx_buffer_head_index s) - unat (tx_buffer_tail_index s)
       else unat (tx_buffer_head_index s) + unat (tx_buffer_size s) - unat (tx_buffer_tail_index s))"
    unfolding get_number_of_unsent_bytes_def
    using ok(1) by (intro ring_distance ok(3)) (simp_all add: tx_indices_ok_def)
  then show "unat (get_number_of_unsent_bytes s) = length E - k"
    using ring_dist(1) [OF tc d hd] by (simp only: c)
  show "tx_buffer_head_index s < tx_buffer_tail_index s \<longleftrightarrow>
           c \<le> unat (tx_buffer_tail_index s) + (length E - k)"
    using ring_dist(2) [OF tc d hd] by (simp add: word_less_nat_alt)
qed

lemma inv_irq:
  assumes inv: "tx_ring_inv c h0 E R0 k s"
  shows "\<exists>s' k'. tx_complete_irq b s = Inr s' \<and> tx_ring_inv c h0 E R0 k' s' \<and>
      (k = length E \<longrightarrow> \<not> pdc_Tx_in_progress s') \<and>
      (pdc_Tx_in_progress s' \<longrightarrow> 0 < k') \<and>
      (unat (tx_buffer_tail_index s) \<le> unat (tx_buffer_head_index s) \<longrightarrow> k' = length E) \<and>
      (unat (tx_buffer_head_index s) < unat (tx_buffer_tail_index s) \<longrightarrow>
         unat (tx_buffer_tail_index s') = 0)"
proof -
  define s0 where "s0 = s\<lparr>sr_rxbuff := b, sr_txbufe := True\<rparr>"
  define s1 where "s1 = (if sr_rxbuff s0
      then s0\<lparr>periph_rpr := rx_buffer s0, periph_rcr := rx_buffer_size s0\<rparr> else s0)"
  have inv0: "tx_ring_inv c h0 E R0 k s0"
    using inv by (rule inv_frame) (simp_all add: s0_def)
  have inv1: "tx_ring_inv c h0 E R0 k s1"
    using inv0 by (rule inv_frame) (simp_all add: s1_def)
  have f1: "tx_armed_runs s1 = tx_armed_runs s" "tx_buffer_size s1 = tx_buffer_size s"
    "tx_mem s1 = tx_mem s" "tx_buffer_head_index s1 = tx_buffer_head_index s"
    "tx_buffer_tail_index s1 = tx_buffer_tail_index s"
    by (simp_all add: s1_def s0_def)
  have f0: "tx_armed_runs s0 = tx_armed_runs s" "tx_buffer_size s0 = tx_buffer_size s"
    "tx_mem s0 = tx_mem s" "tx_buffer_head_index s0 = tx_buffer_head_index s"
    "tx_buffer_tail_index s0 = tx_buffer_tail_index s" "pdc_tx_buffer s0 = pdc_tx_buffer s"
    "tail_when_armed s0 = tail_when_armed s"
    by (simp_all add: s0_def)
  from inv have c: "unat (tx_buffer_size s) = c" and len: "length (tx_mem s) = c"
    and h0: "h0 < c" and k: "k \<le> length E" and e: "length E \<le> c"
    and h: "unat (tx_buffer_head_index s) = (h0 + length E) mod c"
    and t: "unat (tx_buffer_tail_index s) = (h0 + k) mod c"
    and mem: "\<forall>i<length E. tx_mem s ! ((h0 + i) mod c) = E ! i"
    and runs: "concat (tx_armed_runs s) = R0 @ take k E"
    by (auto simp: tx_ring_inv_def)
  note un = inv_unsent [OF inv0, unfolded f0]
  have tc: "unat (tx_buffer_tail_index s) < c" using h0 by (simp add: t)
  have tx: "sr_txbufe s0" by (simp add: s0_def)
  note res = irq_transmit_result [OF tx inv_indices_ok(1) [OF inv0], folded s1_def,
      unfolded Let_def f0]
  have irq: "tx_complete_irq b s = serial_circular_buffer_irq_handler s0"
    by (simp add: tx_complete_irq_def s0_def)
  show ?thesis
  proof (cases "length E - k = 0")
    case True
    then have z: "get_number_of_unsent_bytes s0 = 0"
      using un(1) by (simp add: unat_eq_0)
    then have r: "tx_complete_irq b s =
        Inr (s1\<lparr>pdc_Tx_in_progress := False, txbufe_irq_enabled := False\<rparr>)"
      using res irq by simp
    have ke: "k = length E" using True k by simp
    have i': "tx_ring_inv c h0 E R0 k (s1\<lparr>pdc_Tx_in_progress := False, txbufe_irq_enabled := False\<rparr>)"
      using inv1 ke by (simp add: tx_ring_inv_def)
    have "unat (tx_buffer_head_index s) = unat (tx_buffer_tail_index s)" using h t ke by simp
    then show ?thesis using r i' ke by (intro exI [of _ "s1\<lparr>pdc_Tx_in_progress := False, txbufe_irq_enabled := False\<rparr>"] exI [of _ k]) simp
  next
    case False
    then have nz: "get_number_of_unsent_bytes s0 \<noteq> 0"
      using un(1) by auto
    define nw where "nw = (if tx_buffer_head_index s < tx_buffer_tail_index s
                   then tx_buffer_size s - tx_buffer_tail_index s
                   else get_number_of_unsent_bytes s0)"
    define n where "n = unat nw"
    define s' where "s' = s1\<lparr>periph_tpr := pdc_tx_buffer s + tx_buffer_tail_index s,
                           periph_tcr := nw,
                           txbufe_irq_enabled := True,
                           tx_armed_runs := tx_armed_runs s @
                             [take n (drop (unat (tx_buffer_tail_index s)) (tx_mem s))],
                           tail_when_armed := tail_when_armed s @ [tx_buffer_tail_index s],
                           tx_buffer_tail_index := (tx_buffer_tail_index s + nw) mod tx_buffer_size s,
                           pdc_Tx_in_progress := True\<rparr>"
    have r: "tx_complete_irq b s = Inr s'"
      and t': "unat (tx_buffer_tail_index s') = (unat (tx_buffer_tail_index s) + n) mod c"
      using res nz irq by (simp_all add: s'_def nw_def n_def c)
    have n: "n = (if c \<le> unat (tx_buffer_tail_index s) + (length E - k)
                  then c - unat (tx_buffer_tail_index s) else length E - k)"
      using un(1,2) tc by (simp add: n_def nw_def unat_sub_u32 c)
    have n_pos: "0 < n" and n_le: "n \<le> length E - k" and tn: "unat (tx_buffer_tail_index s) + n \<le> c"
      using n False tc un(3) by (auto split: if_splits)
    have kn: "k + n \<le> length E" using n_le k by simp
    have run: "take n (drop (unat (tx_buffer_tail_index s)) (tx_mem s)) = take n (drop k E)"
      using mem len t tn kn by (rule ring_run)
    have "(unat (tx_buffer_tail_index s) + n) mod c = ((h0 + k) mod c + n) mod c" by (simp add: t)
    also have "\<dots> = (h0 + (k + n)) mod c" by (simp add: mod_add_left_eq add.assoc)
    finally have t'': "unat (tx_buffer_tail_index s') = (h0 + (k + n)) mod c" using t' by simp
    have "concat (tx_armed_runs s') = R0 @ take k E @ take n (drop k E)"
      by (simp add: s'_def runs run)
    also have "take k E @ take n (drop k E) = take (k + n) E" by (simp add: take_add)
    finally have runs': "concat (tx_armed_runs s') = R0 @ take (k + n) E" .
    have i': "tx_ring_inv c h0 E R0 (k + n) s'"
      unfolding tx_ring_inv_def
      using inv1 kn un(3) t'' runs'
      by (simp add: tx_ring_inv_def s'_def f1)
    have p2: "k + n = length E" if "unat (tx_buffer_tail_index s) \<le> unat (tx_buffer_head_index s)"
      using that un(2) n k by (simp add: word_less_nat_alt)
    have p3: "unat (tx_buffer_tail_index s') = 0" if "unat (tx_buffer_head_index s) < unat (tx_buffer_tail_index s)"
      using that un(2) n tc t' by (simp add: word_less_nat_alt)
    have p1: "k \<noteq> length E" using False by simp
    show ?thesis
      using r i' p1 p2 p3 n_pos by (intro exI [of _ s'] exI [of _ "k + n"]) simp
  qed
qed

lemma inv_enqueue:
  assumes inv: "tx_ring_inv c h0 E R0 k s" and room: "length E + length d \<le> c"
    and bound: "pdc_Tx_in_progress s \<longrightarrow> length E + length d - k < c"
  shows "\<exists>s' k'. copy_packet_into_Tx_buffer_and_transmit d (of_nat (length d)) s = Inr s' \<and>
           tx_ring_inv c h0 (E @ d) R0 k' s' \<and>
           (d \<noteq> [] \<and> (pdc_Tx_in_progress s \<longrightarrow> 0 < k) \<longrightarrow> 0 < k')"
proof -
  define n :: u32 where "n = of_nat (length d)"
  from inv have c: "unat (tx_buffer_size s) = c" and len: "length (tx_mem s) = c"
    and cb: "c \<le> 2 ^ 31"
    and h0: "h0 < c" and k: "k \<le> length E" and e: "length E \<le> c"
    and ik: "\<not> pdc_Tx_in_progress s \<longrightarrow> k = length E"
    and h: "unat (tx_buffer_head_index s) = (h0 + length E) mod c"
    and t: "unat (tx_buffer_tail_index s) = (h0 + k) mod c"
    and mem: "\<forall>i<length E. tx_mem s ! ((h0 + i) mod c) = E ! i"
    and runs: "concat (tx_armed_runs s) = R0 @ take k E"
    by (auto simp: tx_ring_inv_def)
  note ok = inv_indices_ok [OF inv]
  have dl: "length d \<le> c" using room by simp
  have "length d < 2 ^ 32" using dl cb by simp
  then have n: "unat n = length d" by (simp add: n_def unat_of_nat take_bit_nat_eq_self)
  define H where "H = unat (tx_buffer_head_index s)"
  have Hc: "H < c" using h0 by (simp add: H_def h)
  have hw: "tx_buffer_head_index s < tx_buffer_size s" using ok(1) by (simp add: tx_indices_ok_def)
  have tw: "tx_buffer_tail_index s < tx_buffer_size s" using ok(1) by (simp add: tx_indices_ok_def)
  have nc: "unat n \<le> unat (tx_buffer_size s)" using n dl c by simp
  note w = copy_packet_words [OF hw ok(3) nc, unfolded n c, folded H_def]
  define F where "F = (if c < H + length d then c - H else length d)"
  define fw where "fw = (if tx_buffer_size s < n + tx_buffer_head_index s
                       then tx_buffer_size s - tx_buffer_head_index s else n)"
  define hd' where "hd' = (if tx_buffer_size s < n + tx_buffer_head_index s
                        then n + tx_buffer_head_index s - tx_buffer_size s
                        else (tx_buffer_head_index s + n) mod tx_buffer_size s)"
  define m' where "m' = ring_write (tx_mem s) H d"
  define s1 where "s1 = s\<lparr>tx_mem := m', tx_buffer_head_index := hd'\<rparr>"
  define s2 where "s2 = s1\<lparr>pdc_Tx_in_progress := True,
                     tx_buffer_tail_index := (tx_buffer_tail_index s + fw) mod tx_buffer_size s,
                     periph_tpr := pdc_tx_buffer s + tx_buffer_head_index s,
                     periph_tcr := fw,
                     txbufe_irq_enabled := True,
                     tx_armed_runs := tx_armed_runs s @ [take F d],
                     tail_when_armed := tail_when_armed s @
                       [(tx_buffer_tail_index s + fw) mod tx_buffer_size s]\<rparr>"
  have fwF: "unat fw = F"
    using w(2,3) n by (simp add: fw_def F_def)
  have res: "copy_packet_into_Tx_buffer_and_transmit d n s =
      Inr (if pdc_Tx_in_progress s then s1 else s2)"
    using copy_packet_result [OF ok(1,2,3) nc, of d] n fwF
    by (simp add: Let_def s1_def s2_def m'_def hd'_def fw_def H_def)
  have hd: "unat hd' = (H + length d) mod c"
  proof (cases "tx_buffer_size s < n + tx_buffer_head_index s")
    case True
    then have "c < H + length d" using w(2) by simp
    then have "(H + length d) mod c = H + length d - c" using Hc dl by (intro mod_wrap2) simp_all
    then show ?thesis using True w(4) by (simp add: hd'_def)
  next
    case False
    then show ?thesis using w(7) by (simp add: hd'_def)
  qed
  have "(H + length d) mod c = ((h0 + length E) mod c + length d) mod c" by (simp add: H_def h)
  also have "\<dots> = (h0 + length (E @ d)) mod c" by (simp add: mod_add_left_eq add.assoc)
  finally have hd2: "unat hd' = (h0 + length (E @ d)) mod c" using hd by simp
  have Hj: "(H + j) mod c = (h0 + (length E + j)) mod c" for j
  proof -
    have "(H + j) mod c = ((h0 + length E) mod c + j) mod c" by (simp add: H_def h)
    also have "\<dots> = (h0 + (length E + j)) mod c" by (simp add: mod_add_left_eq add.assoc)
    finally show ?thesis .
  qed
  have ml: "length m' = c"
    unfolding m'_def using ring_write_length [of H "tx_mem s" d] Hc dl len by simp
  have mem': "m' ! ((h0 + i) mod c) = (E @ d) ! i" if "i < length (E @ d)" for i
  proof (cases "i < length E")
    case True
    have ne: "\<forall>j<length d. (h0 + i) mod c \<noteq> (H + j) mod length (tx_mem s)"
    proof (intro allI impI notI)
      fix j
      assume j: "j < length d" and eq: "(h0 + i) mod c = (H + j) mod length (tx_mem s)"
      have "(h0 + i) mod c = (H + j) mod c" using eq by (simp only: len)
      also have "\<dots> = (h0 + (length E + j)) mod c" by (rule Hj)
      finally have q: "(h0 + i) mod c = (h0 + (length E + j)) mod c" .
      have "i < c" and "length E + j < c" using True e j room by simp_all
      with h0 have "i = length E + j" using q by (rule ring_inj)
      then show False using True by simp
    qed
    have "(h0 + i) mod c < length (tx_mem s)" using h0 len by simp
    then have "m' ! ((h0 + i) mod c) = tx_mem s ! ((h0 + i) mod c)"
      unfolding m'_def using Hc dl len ne by (intro ring_write_old) simp_all
    also have "\<dots> = E ! i" by (rule mem [rule_format, OF True])
    finally show ?thesis using True by (simp add: nth_append)
  next
    case False
    define j where "j = i - length E"
    have j: "j < length d" and ij: "i = length E + j" using False that by (simp_all add: j_def)
    have "m' ! ((H + j) mod length (tx_mem s)) = d ! j"
      unfolding m'_def using Hc dl len j by (intro ring_write_new) simp_all
    then have "m' ! ((H + j) mod c) = d ! j" by (simp only: len)
    then have "m' ! ((h0 + (length E + j)) mod c) = d ! j" by (simp only: Hj)
    then have "m' ! ((h0 + i) mod c) = d ! j" by (simp only: ij)
    then show ?thesis using False by (simp add: nth_append j_def)
  qed
  show ?thesis
  proof (cases "pdc_Tx_in_progress s")
    case True
    then have kb: "length E + length d - k < c" using bound by simp
    have "tx_ring_inv c h0 (E @ d) R0 k s1"
      unfolding tx_ring_inv_def
      using True kb k c cb h0 room hd2 t runs ml mem'
      by (simp add: s1_def)
    then show ?thesis using res True by (auto simp: n_def)
  next
    case False
    then have ke: "k = length E" using ik by simp
    have Fp: "0 < F" if "d \<noteq> []" using that Hc by (auto simp: F_def)
    have Fl: "F \<le> length d" using Hc by (auto simp: F_def)
    have Fb: "length d - F < c" using Fp dl h0 by (cases "d = []") auto
    have tH: "unat (tx_buffer_tail_index s) = H" using t h ke by (simp add: H_def)
    have "unat (tx_buffer_tail_index s) + unat fw < 4294967296"
      using tH Hc fwF Fl dl cb by simp
    then have "unat ((tx_buffer_tail_index s + fw) mod tx_buffer_size s) = (H + F) mod c"
      using tH fwF by (simp add: unat_mod_u32 unat_add_u32 c)
    also have "\<dots> = (h0 + (length E + F)) mod c" by (rule Hj)
    finally have t2: "unat ((tx_buffer_tail_index s + fw) mod tx_buffer_size s) =
        (h0 + (length E + F)) mod c" .
    have r2: "concat (tx_armed_runs s @ [take F d]) = R0 @ take (length E + F) (E @ d)"
      using runs ke by simp
    have "tx_ring_inv c h0 (E @ d) R0 (length E + F) s2"
      unfolding tx_ring_inv_def
      using Fb Fl c cb h0 room hd2 t2 r2 ml mem'
      by (simp add: s2_def s1_def)
    then show ?thesis using res False Fp by (auto simp: n_def)
  qed
qed

lemma inv_idle_done:
  assumes "tx_ring_inv c h0 E R0 k s" "\<not> pdc_Tx_in_progress s"
  shows "k = length E" and "tx_buffer_head_index s = tx_buffer_tail_index s"
    and "concat (tx_armed_runs s) = R0 @ E" and "tx_idle s"
    and "get_number_of_unsent_bytes s = 0"
proof -
  show k: "k = length E" using assms by (simp add: tx_ring_inv_def)
  have "unat (tx_buffer_head_index s) = unat (tx_buffer_tail_index s)"
    using assms k by (simp add: tx_ring_inv_def)
  then show e: "tx_buffer_head_index s = tx_buffer_tail_index s" by (rule word_unat_eq_iff [THEN iffD2])
  show "concat (tx_armed_runs s) = R0 @ E" using assms k by (simp add: tx_ring_inv_def)
  show "tx_idle s"
    using assms(2) e inv_indices_ok(1) [OF assms(1)] by (simp add: tx_idle_def tx_indices_ok_def)
  show "get_number_of_unsent_bytes s = 0"
    using e by (simp add: get_number_of_unsent_bytes_def)
qed

lemma inv_drain1:
  assumes "tx_ring_inv c h0 E R0 (length E) s"
  shows "\<exists>s'. drive_until_idle (Suc m) s = Inr (Some s') \<and> tx_ring_inv c h0 E R0 (length E) s' \<and>
           \<not> pdc_Tx_in_progress s'"
proof (cases "pdc_Tx_in_progress s")
  case False
  then show ?thesis using assms by simp
next
  case True
  from inv_irq [OF assms, of False] obtain s' k' where
    r: "tx_complete_irq False s = Inr s'" and i: "tx_ring_inv c h0 E R0 k' s'"
    and p: "\<not> pdc_Tx_in_progress s'"
    by auto
  from inv_idle_done(1) [OF i p] i have "tx_ring_inv c h0 E R0 (length E) s'" by simp
  moreover have "drive_until_idle (Suc m) s = Inr (Some s')"
    using True r p by (cases m) simp_all
  ultimately show ?thesis using p by auto
qed

lemma inv_drain2:
  assumes "tx_ring_inv c h0 E R0 k s"
    and "unat (tx_buffer_tail_index s) \<le> unat (tx_buffer_head_index s)"
  shows "\<exists>s'. drive_until_idle (Suc (Suc m)) s = Inr (Some s') \<and>
           tx_ring_inv c h0 E R0 (length E) s' \<and> \<not> pdc_Tx_in_progress s'"
proof (cases "pdc_Tx_in_progress s")
  case False
  from inv_idle_done(1) [OF assms(1) False] assms(1) False show ?thesis by simp
next
  case True
  from inv_irq [OF assms(1), of False] assms(2) obtain s1 where
    r: "tx_complete_irq False s = Inr s1" and i: "tx_ring_inv c h0 E R0 (length E) s1"
    by auto
  from inv_drain1 [OF i, of m] obtain s' where
    "drive_until_idle (Suc m) s1 = Inr (Some s')" "tx_ring_inv c h0 E R0 (length E) s'"
    "\<not> pdc_Tx_in_progress s'"
    by auto
  then show ?thesis using True r by auto
qed

lemma inv_drain3:
  assumes "tx_ring_inv c h0 E R0 k s"
  shows "\<exists>s'. drive_until_idle (Suc (Suc (Suc m))) s = Inr (Some s') \<and>
           tx_ring_inv c h0 E R0 (length E) s' \<and> \<not> pdc_Tx_in_progress s'"
proof (cases "pdc_Tx_in_progress s")
  case False
  from inv_idle_done(1) [OF assms(1) False] assms(1) False show ?thesis by simp
next
  case True
  from inv_irq [OF assms(1), of False] obtain s1 k1 where
    r: "tx_complete_irq False s = Inr s1" and i: "tx_ring_inv c h0 E R0 k1 s1"
    and p2: "unat (tx_buffer_tail_index s) \<le> unat (tx_buffer_head_index s) \<longrightarrow> k1 = length E"
    and p3: "unat (tx_buffer_head_index s) < unat (tx_buffer_tail_index s) \<longrightarrow>
       unat (tx_buffer_tail_index s1) = 0"
    by blast
  have "unat (tx_buffer_tail_index s1) \<le> unat (tx_buffer_head_index s1)"
  proof (cases "unat (tx_buffer_tail_index s) \<le> unat (tx_buffer_head_index s)")
    case True
    with p2 i show ?thesis by (simp add: tx_ring_inv_def)
  next
    case False
    with p3 show ?thesis by simp
  qed
  from inv_drain2 [OF i this, of m] obtain s' where
    "drive_until_idle (Suc (Suc m)) s1 = Inr (Some s')" "tx_ring_inv c h0 E R0 (length E) s'"
    "\<not> pdc_Tx_in_progress s'"
    by auto
  then show ?thesis using True r by auto
qed

lemma inv_run_events:
  assumes "tx_ring_inv c h0 E R0 k s" and "length E + length (enqueued evs) \<le> c"
    and "length E + length (enqueued evs) < c \<or>
         packets_nonempty evs \<and> (pdc_Tx_in_progress s \<longrightarrow> 0 < k)"
  shows "\<exists>s' k'. run_events evs s = Inr s' \<and> tx_ring_inv c h0 (E @ enqueued evs) R0 k' s'"
  using assms
proof (induction evs arbitrary: E k s)
  case Nil
  then show ?case by auto
next
  case (Cons ev evs)
  show ?case
  proof (cases ev)
    case (Enqueue d)
    with Cons.prems(2) have room: "length E + length d \<le> c"
      "length (E @ d) + length (enqueued evs) \<le> c"
      by simp_all
    have bound: "pdc_Tx_in_progress s \<longrightarrow> length E + length d - k < c"
    proof
      assume ip: "pdc_Tx_in_progress s"
      from Cons.prems(3) show "length E + length d - k < c"
      proof
        assume "length E + length (enqueued (ev # evs)) < c"
        then show ?thesis using Enqueue by simp
      next
        assume "packets_nonempty (ev # evs) \<and> (pdc_Tx_in_progress s \<longrightarrow> 0 < k)"
        then have "0 < length d" and "0 < k" using Enqueue ip by simp_all
        then show ?thesis using room(1) by arith
      qed
    qed
    from inv_enqueue [OF Cons.prems(1) room(1) bound] obtain s1 k1 where
      r: "copy_packet_into_Tx_buffer_and_transmit d (of_nat (length d)) s = Inr s1"
      and i: "tx_ring_inv c h0 (E @ d) R0 k1 s1"
      and p: "d \<noteq> [] \<and> (pdc_Tx_in_progress s \<longrightarrow> 0 < k) \<longrightarrow> 0 < k1"
      by auto
    have alt: "length (E @ d) + length (enqueued evs) < c \<or>
        packets_nonempty evs \<and> (pdc_Tx_in_progress s1 \<longrightarrow> 0 < k1)"
      using Cons.prems(3) p Enqueue by auto
    from Cons.IH [OF i room(2) alt] obtain s' k' where
      "run_events evs s1 = Inr s'" "tx_ring_inv c h0 ((E @ d) @ enqueued evs) R0 k' s'"
      by auto
    then show ?thesis using r Enqueue by auto
  next
    case (TxComplete b)
    with Cons.prems(2) have room: "length E + length (enqueued evs) \<le> c"
      by simp
    from inv_irq [OF Cons.prems(1), of b] obtain s1 k1 where
      r: "tx_complete_irq b s = Inr s1" and i: "tx_ring_inv c h0 E R0 k1 s1"
      and p: "pdc_Tx_in_progress s1 \<longrightarrow> 0 < k1"
      by auto
    have alt: "length E + length (enqueued evs) < c \<or>
        packets_nonempty evs \<and> (pdc_Tx_in_progress s1 \<longrightarrow> 0 < k1)"
      using Cons.prems(3) p TxComplete by auto
    from Cons.IH [OF i room alt] obtain s' k' where
      "run_events evs s1 = Inr s'" "tx_ring_inv c h0 (E @ enqueued evs) R0 k' s'"
      by auto
    then show ?thesis using r TxComplete by auto
  qed
qed

lemma inv_start:
  assumes "tx_idle s" "tx_region_ok s" "unat (tx_buffer_size s) \<le> 2 ^ 31"
  shows "tx_ring_inv (unat (tx_buffer_size s)) (unat (tx_buffer_head_index s)) []
           (concat (tx_armed_runs s)) 0 s"
  using assms
  by (auto simp: tx_ring_inv_def tx_idle_def tx_region_ok_def word_less_nat_alt)

subsection \<open>Accesses\<close>

lemma copy_packet_stays_inside:
  assumes ok: "tx_indices_ok s" "tx_region_ok s" and cap: "unat (tx_buffer_size s) \<le> 2 ^ 31"
    and n: "unat n \<le> unat (tx_buffer_size s)" and data: "unat n \<le> length d"
  shows "\<exists>s'. copy_packet_into_Tx_buffer_and_transmit d n s = Inr s' \<and>
           tx_indices_ok s' \<and> tx_region_ok s' \<and>
           tx_buffer_size s' = tx_buffer_size s \<and> rx_buffer_size s' = rx_buffer_size s \<and>
           rx_buffer_tail_index s' = rx_buffer_tail_index s \<and> rx_mem s' = rx_mem s \<and>
           (\<not> pdc_Tx_in_progress s \<longrightarrow>
              unat (periph_tpr s' - pdc_tx_buffer s') + unat (periph_tcr s') \<le> unat (tx_buffer_size s))"
proof -
  let ?h = "tx_buffer_head_index s" and ?c = "tx_buffer_size s" and ?t = "tx_buffer_tail_index s"
  have hw: "?h < ?c" and tw: "?t < ?c" using ok(1) by (simp_all add: tx_indices_ok_def)
  then have nz: "0 < ?c" by (auto simp: word_greater_zero_iff)
  have hn: "unat ?h < unat ?c" using hw by (simp add: word_less_nat_alt)
  have len: "length (tx_mem s) = unat ?c" using ok(2) by (simp add: tx_region_ok_def)
  note w = copy_packet_words [OF hw cap n]
  define fw where "fw = (if ?c < n + ?h then ?c - ?h else n)"
  define hd' where "hd' = (if ?c < n + ?h then n + ?h - ?c else (?h + n) mod ?c)"
  define m' where "m' = ring_write (tx_mem s) (unat ?h) (take (unat n) d)"
  define s1 where "s1 = s\<lparr>tx_mem := m', tx_buffer_head_index := hd'\<rparr>"
  define s2 where "s2 = s1\<lparr>pdc_Tx_in_progress := True,
                     tx_buffer_tail_index := (?t + fw) mod ?c,
                     periph_tpr := pdc_tx_buffer s + ?h,
                     periph_tcr := fw,
                     txbufe_irq_enabled := True,
                     tx_armed_runs := tx_armed_runs s @ [take (unat fw) (take (unat n) d)],
                     tail_when_armed := tail_when_armed s @ [(?t + fw) mod ?c]\<rparr>"
  have res: "copy_packet_into_Tx_buffer_and_transmit d n s =
      Inr (if pdc_Tx_in_progress s then s1 else s2)"
    using copy_packet_result [OF ok cap n data]
    by (simp add: Let_def s1_def s2_def m'_def hd'_def fw_def)
  have hd: "hd' < ?c"
  proof (cases "?c < n + ?h")
    case True
    then have "unat (n + ?h - ?c) < unat ?c" using w(2,4) hn n by simp
    then show ?thesis using True by (simp add: hd'_def word_less_nat_alt)
  next
    case False
    then show ?thesis using nz by (simp add: hd'_def word_mod_less_divisor)
  qed
  have tl: "(?t + fw) mod ?c < ?c" using nz by (rule word_mod_less_divisor)
  have ml: "length m' = unat ?c"
    unfolding m'_def using ring_write_length [of "unat ?h" "tx_mem s" "take (unat n) d"] hn n len
    by simp
  have fr: "unat ?h + unat fw \<le> unat ?c"
    using w(2,3) hn by (simp add: fw_def)
  show ?thesis
  proof (cases "pdc_Tx_in_progress s")
    case True
    then show ?thesis
      using res hd tw ml by (simp add: s1_def tx_indices_ok_def tx_region_ok_def)
  next
    case False
    then show ?thesis
      using res hd tl ml fr by (simp add: s2_def s1_def tx_indices_ok_def tx_region_ok_def)
  qed
qed

lemma irq_stays_inside:
  assumes ok: "tx_indices_ok s" and cap: "unat (tx_buffer_size s) \<le> 2 ^ 31"
  shows "\<exists>s'. serial_circular_buffer_irq_handler s = Inr s' \<and>
           tx_indices_ok s' \<and> tx_mem s' = tx_mem s \<and>
           tx_buffer_size s' = tx_buffer_size s \<and> rx_buffer_size s' = rx_buffer_size s \<and>
           rx_buffer_tail_index s' = rx_buffer_tail_index s \<and> rx_mem s' = rx_mem s \<and>
           (sr_txbufe s \<and> get_number_of_unsent_bytes s \<noteq> 0 \<longrightarrow>
              unat (periph_tpr s' - pdc_tx_buffer s') + unat (periph_tcr s') \<le> unat (tx_buffer_size s))"
proof (cases "sr_txbufe s")
  case False
  then show ?thesis
    using ok by (simp add: serial_circular_buffer_irq_handler_def HAL_PDC_RX_INIT_NO_NEXT_def
        tx_indices_ok_def)
next
  case True
  let ?h = "tx_buffer_head_index s" and ?c = "tx_buffer_size s" and ?t = "tx_buffer_tail_index s"
  have hw: "?h < ?c" and tw: "?t < ?c" using ok by (simp_all add: tx_indices_ok_def)
  then have nz: "0 < ?c" by (auto simp: word_greater_zero_iff)
  have tn: "unat ?t < unat ?c" using tw by (simp add: word_less_nat_alt)
  note res = irq_transmit_result [OF True ok, unfolded Let_def]
  show ?thesis
  proof (cases "get_number_of_unsent_bytes s = 0")
    case z: True
    then show ?thesis using res hw tw by (simp add: tx_indices_ok_def)
  next
    case nzb: False
    define nw where "nw = (if ?h < ?t then ?c - ?t else get_number_of_unsent_bytes s)"
    have tl: "(?t + nw) mod ?c < ?c" using nz by (rule word_mod_less_divisor)
    have "unat (get_number_of_unsent_bytes s) =
        (if unat ?t \<le> unat ?h then unat ?h - unat ?t else unat ?h + unat ?c - unat ?t)"
      unfolding get_number_of_unsent_bytes_def using hw tw cap by (rule ring_distance)
    then have fr: "unat ?t + unat nw \<le> unat ?c"
      using tn hw by (auto simp: nw_def unat_sub_u32 word_less_nat_alt)
    show ?thesis
      using res nzb hw tl fr by (simp add: tx_indices_ok_def nw_def)
  qed
qed

lemma get_latest_byte_stays_inside:
  assumes "rx_index_ok s" "rx_region_ok s"
  shows "\<exists>s'. get_latest_byte s = Inr (rx_mem s ! unat (rx_buffer_tail_index s), s') \<and>
           unat (rx_buffer_tail_index s) < length (rx_mem s) \<and>
           rx_index_ok s' \<and> rx_region_ok s' \<and> rx_mem s' = rx_mem s \<and>
           tx_buffer_size s' = tx_buffer_size s \<and> tx_buffer_head_index s' = tx_buffer_head_index s \<and>
           tx_buffer_tail_index s' = tx_buffer_tail_index s \<and> tx_mem s' = tx_mem s"
proof -
  have t: "rx_buffer_tail_index s < rx_buffer_size s" using assms(1) by (simp add: rx_index_ok_def)
  then have nz: "0 < rx_buffer_size s" by (auto simp: word_greater_zero_iff)
  then have ne: "rx_buffer_size s \<noteq> 0" by auto
  have tl: "(rx_buffer_tail_index s + 1) mod rx_buffer_size s < rx_buffer_size s"
    using nz by (rule word_mod_less_divisor)
  have "unat (rx_buffer_tail_index s) < length (rx_mem s)"
    using t assms(2) by (simp add: rx_region_ok_def word_less_nat_alt)
  then show ?thesis
    using ne tl assms(2)
    by (simp add: get_latest_byte_def increment_rx_buffer_tail_index_def rx_index_ok_def
        rx_region_ok_def)
qed

section \<open>The claims\<close>

subsection \<open>The byte counts\<close>

text \<open>
  With a transmit capacity of \<open>2 ^ 31 + 1\<close>, head \<open>2 ^ 31\<close> and tail \<open>0\<close>, both indices
  lie in the buffer and \<open>2 ^ 31\<close> bytes are pending, but the difference is negative as an
  \<open>int32_t\<close>, the capacity is added, and \<open>get_number_of_unsent_bytes\<close> returns 1.
\<close>

theorem byte_counts_counterexample:
  "tx_buffer_head_index (tx_state 0x80000001 0x80000000 0 True []) <
     tx_buffer_size (tx_state 0x80000001 0x80000000 0 True []) \<and>
   tx_buffer_tail_index (tx_state 0x80000001 0x80000000 0 True []) <
     tx_buffer_size (tx_state 0x80000001 0x80000000 0 True []) \<and>
   (unat (tx_buffer_head_index (tx_state 0x80000001 0x80000000 0 True [])) +
    unat (tx_buffer_size (tx_state 0x80000001 0x80000000 0 True [])) -
    unat (tx_buffer_tail_index (tx_state 0x80000001 0x80000000 0 True []))) mod
     unat (tx_buffer_size (tx_state 0x80000001 0x80000000 0 True [])) = 2147483648 \<and>
   get_number_of_unsent_bytes (tx_state 0x80000001 0x80000000 0 True []) = 1"
  by (simp add: tx_state_def blank_driver_def get_number_of_unsent_bytes_def)

text \<open>
  Claim C6, amended: when the capacities are at most \<open>2 ^ 31\<close>, for every head and tail
  inside the buffer (the receive head being the capacity minus the hardware counter),
  \<open>get_number_of_unread_bytes\<close> returns \<open>(head - tail + rx_capacity) mod rx_capacity\<close> and
  \<open>get_number_of_unsent_bytes\<close> returns \<open>(head - tail + tx_capacity) mod tx_capacity\<close>,
  and both results are below the capacity.
\<close>

theorem byte_counts_exact:
  assumes "unat (rx_buffer_size s) \<le> 2 ^ 31" and "unat (tx_buffer_size s) \<le> 2 ^ 31"
    and "get_rx_buffer_head_index s < rx_buffer_size s" and "rx_buffer_tail_index s < rx_buffer_size s"
    and "tx_buffer_head_index s < tx_buffer_size s" and "tx_buffer_tail_index s < tx_buffer_size s"
  shows "unat (get_number_of_unread_bytes s) =
           (unat (get_rx_buffer_head_index s) + unat (rx_buffer_size s) - unat (rx_buffer_tail_index s))
             mod unat (rx_buffer_size s) \<and>
         unat (get_number_of_unread_bytes s) < unat (rx_buffer_size s) \<and>
         unat (get_number_of_unsent_bytes s) =
           (unat (tx_buffer_head_index s) + unat (tx_buffer_size s) - unat (tx_buffer_tail_index s))
             mod unat (tx_buffer_size s) \<and>
         unat (get_number_of_unsent_bytes s) < unat (tx_buffer_size s)"
  unfolding get_number_of_unread_bytes_def get_number_of_unsent_bytes_def
  using ring_distance_mod [OF assms(3,4,1)] ring_distance_mod [OF assms(5,6,2)]
  by simp

text \<open>
  A receive buffer of 4 bytes with the hardware counter at 1 and the tail at 1 holds 2
  unread bytes; a transmit buffer of 8 bytes with head 3 and tail 6 holds 5 unsent bytes.
\<close>

theorem byte_counts_exact_witness:
  "unat (rx_buffer_size ((rx_state 4 1 1)\<lparr>tx_buffer_size := 8, tx_buffer_head_index := 3,
      tx_buffer_tail_index := 6\<rparr>)) \<le> 2 ^ 31 \<and>
   get_rx_buffer_head_index ((rx_state 4 1 1)\<lparr>tx_buffer_size := 8, tx_buffer_head_index := 3,
      tx_buffer_tail_index := 6\<rparr>) = 3 \<and>
   get_number_of_unread_bytes ((rx_state 4 1 1)\<lparr>tx_buffer_size := 8, tx_buffer_head_index := 3,
      tx_buffer_tail_index := 6\<rparr>) = 2 \<and>
   (3 + 4 - 1) mod 4 = (2::nat) \<and>
   get_number_of_unsent_bytes ((rx_state 4 1 1)\<lparr>tx_buffer_size := 8, tx_buffer_head_index := 3,
      tx_buffer_tail_index := 6\<rparr>) = 5 \<and>
   (3 + 8 - 6) mod 8 = (5::nat)"
  using byte_counts_exact [of "(rx_state 4 1 1)\<lparr>tx_buffer_size := 8, tx_buffer_head_index := 3,
      tx_buffer_tail_index := 6\<rparr>"]
  by (simp add: rx_state_def blank_driver_def get_number_of_unsent_bytes_def
      get_number_of_unread_bytes_def get_rx_buffer_head_index_def)

subsection \<open>The interrupt handler\<close>

text \<open>
  Claim C2: in a state whose transmit indices lie in the buffer and in which the
  transmit-empty condition is signaled, the handler (after re-arming the receiver when
  the receive-full condition is signaled too) does this. If
  \<open>get_number_of_unsent_bytes\<close> is 0 it clears \<open>pdc_Tx_in_progress\<close>, disables the
  transmit-empty interrupt source and changes nothing else. Otherwise it arms the
  transmit channel at the tail for \<open>tx_capacity - tail\<close> bytes when head < tail and for
  \<open>get_number_of_unsent_bytes\<close> bytes when not (the tail recorded at the arming is
  the one the handler found), then advances the tail by that length modulo the
  capacity (the sum does not wrap around in 32 bits), and leaves \<open>pdc_Tx_in_progress\<close>
  true.
\<close>

theorem transmit_complete_branch:
  assumes "sr_txbufe s" and "tx_indices_ok s"
  shows "(let s1 = (if sr_rxbuff s
                    then s\<lparr>periph_rpr := rx_buffer s, periph_rcr := rx_buffer_size s\<rparr> else s);
              n = (if tx_buffer_head_index s < tx_buffer_tail_index s
                   then tx_buffer_size s - tx_buffer_tail_index s
                   else get_number_of_unsent_bytes s)
          in (get_number_of_unsent_bytes s = 0 \<longrightarrow>
                serial_circular_buffer_irq_handler s =
                  Inr (s1\<lparr>pdc_Tx_in_progress := False, txbufe_irq_enabled := False\<rparr>)) \<and>
             (get_number_of_unsent_bytes s \<noteq> 0 \<longrightarrow>
                serial_circular_buffer_irq_handler s =
                  Inr (s1\<lparr>periph_tpr := pdc_tx_buffer s + tx_buffer_tail_index s,
                           periph_tcr := n,
                           txbufe_irq_enabled := True,
                           tx_armed_runs := tx_armed_runs s @
                             [take (unat n) (drop (unat (tx_buffer_tail_index s)) (tx_mem s))],
                           tail_when_armed := tail_when_armed s @ [tx_buffer_tail_index s],
                           tx_buffer_tail_index := (tx_buffer_tail_index s + n) mod tx_buffer_size s,
                           pdc_Tx_in_progress := True\<rparr>) \<and>
                unat ((tx_buffer_tail_index s + n) mod tx_buffer_size s) =
                  (unat (tx_buffer_tail_index s) + unat n) mod unat (tx_buffer_size s)))"
  using assms by (rule irq_transmit_result)

text \<open>
  The scenario of the specification: capacity 8, head 3, tail 0, a transfer in progress.
  The first interrupt arms 3 bytes at index 0 and moves the tail to 3; the second finds
  nothing unsent and clears the flag.
\<close>

theorem transmit_complete_branch_witness:
  "sr_txbufe ((tx_state 8 3 0 True [67, 68, 69, 0, 0, 0, 65, 66])\<lparr>sr_txbufe := True\<rparr>) \<and>
   tx_indices_ok ((tx_state 8 3 0 True [67, 68, 69, 0, 0, 0, 65, 66])\<lparr>sr_txbufe := True\<rparr>) \<and>
   get_number_of_unsent_bytes ((tx_state 8 3 0 True [67, 68, 69, 0, 0, 0, 65, 66])\<lparr>sr_txbufe := True\<rparr>) = 3 \<and>
   serial_circular_buffer_irq_handler ((tx_state 8 3 0 True [67, 68, 69, 0, 0, 0, 65, 66])\<lparr>sr_txbufe := True\<rparr>) =
     Inr ((tx_state 8 3 3 True [67, 68, 69, 0, 0, 0, 65, 66])
            \<lparr>sr_txbufe := True, periph_tcr := 3, txbufe_irq_enabled := True,
             tx_armed_runs := [[67, 68, 69]], tail_when_armed := [0]\<rparr>) \<and>
   tx_indices_ok ((tx_state 8 3 3 True [67, 68, 69, 0, 0, 0, 65, 66])\<lparr>sr_txbufe := True\<rparr>) \<and>
   get_number_of_unsent_bytes ((tx_state 8 3 3 True [67, 68, 69, 0, 0, 0, 65, 66])\<lparr>sr_txbufe := True\<rparr>) = 0 \<and>
   serial_circular_buffer_irq_handler ((tx_state 8 3 3 True [67, 68, 69, 0, 0, 0, 65, 66])\<lparr>sr_txbufe := True\<rparr>) =
     Inr ((tx_state 8 3 3 False [67, 68, 69, 0, 0, 0, 65, 66])\<lparr>sr_txbufe := True\<rparr>)"
  using transmit_complete_branch [of "(tx_state 8 3 0 True [67, 68, 69, 0, 0, 0, 65, 66])\<lparr>sr_txbufe := True\<rparr>"]
    transmit_complete_branch [of "(tx_state 8 3 3 True [67, 68, 69, 0, 0, 0, 65, 66])\<lparr>sr_txbufe := True\<rparr>"]
  by (simp add: tx_state_def blank_driver_def tx_indices_ok_def get_number_of_unsent_bytes_def)

text \<open>
  Claim C9: when the receive-full condition is signaled, the handler re-arms the receive
  channel with the buffer's base address and \<open>rx_buffer_size\<close>, whatever the hardware
  counter held, and leaves the receive tail, buffer and size as they were. When the
  transmit-empty condition is not signaled with it, that is all it does: every other
  field, the transmit state among them, is unchanged, and running the handler again
  gives the same state.
\<close>

theorem receive_full_rearms_only:
  assumes "sr_rxbuff s"
  shows "(\<forall>s'. serial_circular_buffer_irq_handler s = Inr s' \<longrightarrow>
            periph_rpr s' = rx_buffer s \<and> periph_rcr s' = rx_buffer_size s \<and>
            rx_buffer_tail_index s' = rx_buffer_tail_index s \<and> rx_buffer s' = rx_buffer s \<and>
            rx_buffer_size s' = rx_buffer_size s \<and> rx_mem s' = rx_mem s) \<and>
         (\<not> sr_txbufe s \<longrightarrow>
            serial_circular_buffer_irq_handler s =
              Inr (s\<lparr>periph_rpr := rx_buffer s, periph_rcr := rx_buffer_size s\<rparr>) \<and>
            then_do (serial_circular_buffer_irq_handler s) serial_circular_buffer_irq_handler =
              serial_circular_buffer_irq_handler s)"
proof -
  have rx: "periph_rpr s' = rx_buffer s \<and> periph_rcr s' = rx_buffer_size s \<and>
      rx_buffer_tail_index s' = rx_buffer_tail_index s \<and> rx_buffer s' = rx_buffer s \<and>
      rx_buffer_size s' = rx_buffer_size s \<and> rx_mem s' = rx_mem s"
    if "serial_circular_buffer_irq_handler s = Inr s'" for s'
    using that assms
    unfolding serial_circular_buffer_irq_handler_def Let_def then_do_eq_Inr
    by (auto simp: HAL_PDC_RX_INIT_NO_NEXT_def increment_tx_buffer_tail_index_def
        initiate_PDC_Tx_def HAL_PDC_TX_INIT_NO_NEXT_def split: if_splits)
  have once: "serial_circular_buffer_irq_handler s =
      Inr (s\<lparr>periph_rpr := rx_buffer s, periph_rcr := rx_buffer_size s\<rparr>)"
    if "\<not> sr_txbufe s"
    using that assms by (simp add: serial_circular_buffer_irq_handler_def HAL_PDC_RX_INIT_NO_NEXT_def)
  have twice: "then_do (serial_circular_buffer_irq_handler s) serial_circular_buffer_irq_handler =
      serial_circular_buffer_irq_handler s"
    if "\<not> sr_txbufe s"
    using that assms by (simp add: serial_circular_buffer_irq_handler_def HAL_PDC_RX_INIT_NO_NEXT_def)
  show ?thesis
    using rx once twice by blast
qed

text \<open>
  A receive buffer of 4 bytes whose hardware counter still holds 1, tail 1, while a
  transmission is in progress: the handler sets the counter back to 4 and touches
  nothing else, once or twice.
\<close>

theorem receive_full_rearms_only_witness:
  "sr_rxbuff ((rx_state 4 1 1)\<lparr>sr_rxbuff := True, pdc_Tx_in_progress := True, rx_buffer := 0x20000000\<rparr>) \<and>
   \<not> sr_txbufe ((rx_state 4 1 1)\<lparr>sr_rxbuff := True, pdc_Tx_in_progress := True, rx_buffer := 0x20000000\<rparr>) \<and>
   serial_circular_buffer_irq_handler
     ((rx_state 4 1 1)\<lparr>sr_rxbuff := True, pdc_Tx_in_progress := True, rx_buffer := 0x20000000\<rparr>) =
     Inr ((rx_state 4 4 1)\<lparr>sr_rxbuff := True, pdc_Tx_in_progress := True, rx_buffer := 0x20000000,
            periph_rpr := 0x20000000\<rparr>) \<and>
   serial_circular_buffer_irq_handler
     ((rx_state 4 4 1)\<lparr>sr_rxbuff := True, pdc_Tx_in_progress := True, rx_buffer := 0x20000000,
            periph_rpr := 0x20000000\<rparr>) =
     Inr ((rx_state 4 4 1)\<lparr>sr_rxbuff := True, pdc_Tx_in_progress := True, rx_buffer := 0x20000000,
            periph_rpr := 0x20000000\<rparr>)"
  using receive_full_rearms_only
    [of "(rx_state 4 1 1)\<lparr>sr_rxbuff := True, pdc_Tx_in_progress := True, rx_buffer := 0x20000000\<rparr>"]
  by (simp add: rx_state_def blank_driver_def driver_ops)

subsection \<open>Empty packets\<close>

text \<open>
  An empty packet handed to an idle driver (capacity 8, head and tail 0) is not without
  effect: the driver sets \<open>pdc_Tx_in_progress\<close>, arms a transfer of no bytes and enables
  the transmit-empty interrupt.
\<close>

theorem empty_packet_counterexample:
  "\<not> pdc_Tx_in_progress (tx_state 8 0 0 False (replicate 8 0)) \<and>
   copy_packet_into_Tx_buffer_and_transmit [] 0 (tx_state 8 0 0 False (replicate 8 0)) =
     Inr ((tx_state 8 0 0 True (replicate 8 0))\<lparr>txbufe_irq_enabled := True, tx_armed_runs := [[]],
       tail_when_armed := [0]\<rparr>) \<and>
   (tx_state 8 0 0 True (replicate 8 0))\<lparr>txbufe_irq_enabled := True, tx_armed_runs := [[]],
       tail_when_armed := [0]\<rparr> \<noteq>
     tx_state 8 0 0 False (replicate 8 0)"
proof -
  have "pdc_Tx_in_progress ((tx_state 8 0 0 True (replicate 8 0))\<lparr>txbufe_irq_enabled := True, tx_armed_runs := [[]],
       tail_when_armed := [0]\<rparr>) \<noteq>
        pdc_Tx_in_progress (tx_state 8 0 0 False (replicate 8 0))"
    by (simp add: tx_state_def)
  then have "(tx_state 8 0 0 True (replicate 8 0))\<lparr>txbufe_irq_enabled := True, tx_armed_runs := [[]],
       tail_when_armed := [0]\<rparr> \<noteq>
     tx_state 8 0 0 False (replicate 8 0)"
    by metis
  then show ?thesis
    by (simp add: tx_state_def blank_driver_def driver_ops)
qed

text \<open>
  Claim C4, amended: a call with length 0, in a state whose transmit indices lie in the
  buffer, copies no bytes and leaves head, tail and the buffer contents as they were.
  While a transfer is in progress it changes nothing at all. On an idle driver it sets
  \<open>pdc_Tx_in_progress\<close>, arms the transmit channel for 0 bytes at the head and enables
  the transmit-empty interrupt source.
\<close>

theorem empty_packet_effect:
  assumes "tx_indices_ok s" and "tx_region_ok s"
  shows "copy_packet_into_Tx_buffer_and_transmit d 0 s =
           Inr (if pdc_Tx_in_progress s then s
                else s\<lparr>pdc_Tx_in_progress := True,
                       periph_tpr := pdc_tx_buffer s + tx_buffer_head_index s,
                       periph_tcr := 0,
                       txbufe_irq_enabled := True,
                       tx_armed_runs := tx_armed_runs s @ [[]],
                       tail_when_armed := tail_when_armed s @ [tx_buffer_tail_index s]\<rparr>)"
proof -
  have h: "tx_buffer_head_index s < tx_buffer_size s" and t: "tx_buffer_tail_index s < tx_buffer_size s"
    using assms(1) by (simp_all add: tx_indices_ok_def)
  then have nz: "tx_buffer_size s \<noteq> 0" by auto
  have len: "unat (tx_buffer_head_index s) \<le> length (tx_mem s)"
    using h assms(2) by (simp add: tx_region_ok_def word_less_nat_alt)
  have nr: "\<not> tx_buffer_size s < tx_buffer_head_index s" using h by simp
  have hm: "tx_buffer_head_index s mod tx_buffer_size s = tx_buffer_head_index s"
    using h by (simp add: mod_word_less)
  have tm: "tx_buffer_tail_index s mod tx_buffer_size s = tx_buffer_tail_index s"
    using t by (simp add: mod_word_less)
  show ?thesis
    using nz len nr
    by (simp add: copy_packet_into_Tx_buffer_and_transmit_def Let_def memcpy_def
        increment_tx_buffer_head_index_def increment_tx_buffer_tail_index_def hm tm
        initiate_PDC_Tx_def HAL_PDC_TX_INIT_NO_NEXT_def)
qed

theorem empty_packet_effect_witness:
  "tx_indices_ok (tx_state 8 3 0 True [67, 68, 69, 0, 0, 0, 65, 66]) \<and>
   tx_region_ok (tx_state 8 3 0 True [67, 68, 69, 0, 0, 0, 65, 66]) \<and>
   copy_packet_into_Tx_buffer_and_transmit [] 0 (tx_state 8 3 0 True [67, 68, 69, 0, 0, 0, 65, 66]) =
     Inr (tx_state 8 3 0 True [67, 68, 69, 0, 0, 0, 65, 66])"
  using empty_packet_effect [of "tx_state 8 3 0 True [67, 68, 69, 0, 0, 0, 65, 66]" "[]"]
  by (simp add: tx_state_def blank_driver_def tx_indices_ok_def tx_region_ok_def)

subsection \<open>The invariant of the transmit flag\<close>

text \<open>
  Claim C5: the predicate "\<open>pdc_Tx_in_progress\<close> is false implies
  \<open>get_number_of_unsent_bytes\<close> is 0" holds after \<open>init\<close>, is preserved by
  \<open>copy_packet_into_Tx_buffer_and_transmit\<close> (with any length), by the interrupt handler
  (under any status bits) and by \<open>get_latest_byte\<close>, whenever they complete, and so
  holds in every reachable state.
\<close>

theorem idle_means_sent_invariant:
  "(init clk port rxp rxm rxn txp txm txn baud par s0 = Inr s1 \<longrightarrow> idle_means_sent s1) \<and>
   (idle_means_sent s \<and> copy_packet_into_Tx_buffer_and_transmit d n s = Inr s' \<longrightarrow> idle_means_sent s') \<and>
   (idle_means_sent s \<and> serial_circular_buffer_irq_handler s = Inr s' \<longrightarrow> idle_means_sent s') \<and>
   (idle_means_sent s \<and> get_latest_byte s = Inr (b, s') \<longrightarrow> idle_means_sent s') \<and>
   (reachable s \<longrightarrow> idle_means_sent s)"
proof (intro conjI impI; (elim conjE)?)
  show "idle_means_sent s1" if "init clk port rxp rxm rxn txp txm txn baud par s0 = Inr s1"
    using that by (rule init_idle_means_sent)
  show "idle_means_sent s'" if "copy_packet_into_Tx_buffer_and_transmit d n s = Inr s'"
    using copy_packet_in_progress [OF that] by (simp add: idle_means_sent_def)
  show "idle_means_sent s'" if "idle_means_sent s" "serial_circular_buffer_irq_handler s = Inr s'"
    using that by (rule irq_idle_means_sent)
  show "idle_means_sent s'" if "idle_means_sent s" "get_latest_byte s = Inr (b, s')"
    using that by (rule get_latest_byte_idle_means_sent)
  show "idle_means_sent s" if "reachable s"
    using that by (rule reachable_idle_means_sent)
qed

text \<open>
  The driver after \<open>init\<close> is reachable and idle with nothing unsent; a packet of three
  bytes, a transmit-complete interrupt and a read each complete and keep the invariant.
\<close>

theorem idle_means_sent_invariant_witness:
  "init 48000000 UART_PORT_0 0x20000000 (replicate 4 0) 4 0x20000100 (replicate 8 0) 8
     115200 UART_PARITY_NONE blank_driver = Inr example_driver \<and>
   idle_means_sent example_driver \<and>
   \<not> pdc_Tx_in_progress example_driver \<and>
   reachable example_driver \<and>
   copy_packet_into_Tx_buffer_and_transmit [1, 2, 3] 3 example_driver =
     Inr (example_driver\<lparr>tx_buffer_head_index := 3, tx_buffer_tail_index := 3,
            pdc_Tx_in_progress := True, tx_mem := [1, 2, 3, 0, 0, 0, 0, 0],
            periph_tpr := 0x20000100, periph_tcr := 3, txbufe_irq_enabled := True,
            tx_armed_runs := [[1, 2, 3]], tail_when_armed := [3]\<rparr>) \<and>
   idle_means_sent (example_driver\<lparr>tx_buffer_head_index := 3, tx_buffer_tail_index := 3,
            pdc_Tx_in_progress := True, tx_mem := [1, 2, 3, 0, 0, 0, 0, 0],
            periph_tpr := 0x20000100, periph_tcr := 3, txbufe_irq_enabled := True,
            tx_armed_runs := [[1, 2, 3]], tail_when_armed := [3]\<rparr>) \<and>
   serial_circular_buffer_irq_handler (example_driver\<lparr>sr_txbufe := True\<rparr>) =
     Inr (example_driver\<lparr>sr_txbufe := True\<rparr>) \<and>
   idle_means_sent (example_driver\<lparr>sr_txbufe := True\<rparr>) \<and>
   get_latest_byte example_driver = Inr (0, example_driver\<lparr>rx_buffer_tail_index := 1\<rparr>) \<and>
   idle_means_sent (example_driver\<lparr>rx_buffer_tail_index := 1\<rparr>)"
proof -
  have i: "init 48000000 UART_PORT_0 0x20000000 (replicate 4 0) 4 0x20000100 (replicate 8 0) 8
     115200 UART_PARITY_NONE blank_driver = Inr example_driver"
    by (rule example_driver_init)
  have r: "reachable example_driver" by (rule after_init [OF i])
  show ?thesis
    using i r
      idle_means_sent_invariant [where clk = 48000000 and port = UART_PORT_0 and rxp = "0x20000000"
        and rxm = "replicate 4 0" and rxn = 4 and txp = "0x20000100" and txm = "replicate 8 0"
        and txn = 8 and baud = 115200 and par = UART_PARITY_NONE and ?s0.0 = blank_driver
        and ?s1.0 = example_driver and s = example_driver]
    by (simp add: driver_ops example_driver_def blank_driver_def idle_means_sent_def replicate_bytes)
qed

subsection \<open>The instance pointers\<close>

text \<open>
  Claim C10: the interrupt entry points call through the global instance pointers, which
  are null until \<open>init\<close> runs for their port. After any calls that complete from the
  start of the system with no \<open>init\<close> for port 0 among them, the pointer of port 0 is
  still null and \<open>UART0_Handler\<close> is a null-pointer fault; once \<open>init\<close> for port 0 has
  completed on an object, the pointer is that object's address, \<open>UART0_Handler\<close> runs
  that object's handler, and the pointer is non-null after any further calls. Likewise
  for port 1.
\<close>

theorem instance_pointer_null_until_init:
  "(list_all (\<lambda>c. \<not> inits_port UART_PORT_0 c) cs \<and> system_run cs blank_system = Inr sys1 \<longrightarrow>
      UART0_ISR_instance_ptr sys1 = None \<and> UART0_Handler sys1 = Inl NullPointer) \<and>
   (list_all (\<lambda>c. \<not> inits_port UART_PORT_1 c) cs \<and> system_run cs blank_system = Inr sys1 \<longrightarrow>
      UART1_ISR_instance_ptr sys1 = None \<and> UART1_Handler sys1 = Inl NullPointer) \<and>
   (system_init this clk UART_PORT_0 rxp rxm rxn txp txm txn baud par sys = Inr sys2 \<longrightarrow>
      UART0_ISR_instance_ptr sys2 = Some this \<and>
      UART0_Handler sys2 = on_object this serial_circular_buffer_irq_handler sys2 \<and>
      (system_run cs' sys2 = Inr sys3 \<longrightarrow> UART0_ISR_instance_ptr sys3 \<noteq> None)) \<and>
   (system_init this clk UART_PORT_1 rxp rxm rxn txp txm txn baud par sys = Inr sys2 \<longrightarrow>
      UART1_ISR_instance_ptr sys2 = Some this \<and>
      UART1_Handler sys2 = on_object this serial_circular_buffer_irq_handler sys2 \<and>
      (system_run cs' sys2 = Inr sys3 \<longrightarrow> UART1_ISR_instance_ptr sys3 \<noteq> None))"
proof (intro conjI impI; (elim conjE)?)
  assume a: "list_all (\<lambda>c. \<not> inits_port UART_PORT_0 c) cs" "system_run cs blank_system = Inr sys1"
  show n0: "UART0_ISR_instance_ptr sys1 = None"
    using system_run_keeps_null(1) [OF a(2) a(1)] by (simp add: blank_system_def)
  show "UART0_Handler sys1 = Inl NullPointer" using n0 by (simp add: UART0_Handler_def)
next
  assume a: "list_all (\<lambda>c. \<not> inits_port UART_PORT_1 c) cs" "system_run cs blank_system = Inr sys1"
  show n0: "UART1_ISR_instance_ptr sys1 = None"
    using system_run_keeps_null(2) [OF a(2) a(1)] by (simp add: blank_system_def)
  show "UART1_Handler sys1 = Inl NullPointer" using n0 by (simp add: UART1_Handler_def)
next
  assume a: "system_init this clk UART_PORT_0 rxp rxm rxn txp txm txn baud par sys = Inr sys2"
  show p: "UART0_ISR_instance_ptr sys2 = Some this" using system_init_pointers(1) [OF a] by simp
  show "UART0_Handler sys2 = on_object this serial_circular_buffer_irq_handler sys2"
    using p by (simp add: UART0_Handler_def)
  assume "system_run cs' sys2 = Inr sys3"
  then show "UART0_ISR_instance_ptr sys3 \<noteq> None" using system_run_keeps_set(1) p by auto
next
  assume a: "system_init this clk UART_PORT_1 rxp rxm rxn txp txm txn baud par sys = Inr sys2"
  show p: "UART1_ISR_instance_ptr sys2 = Some this" using system_init_pointers(2) [OF a] by simp
  show "UART1_Handler sys2 = on_object this serial_circular_buffer_irq_handler sys2"
    using p by (simp add: UART1_Handler_def)
  assume "system_run cs' sys2 = Inr sys3"
  then show "UART1_ISR_instance_ptr sys3 \<noteq> None" using system_run_keeps_set(2) p by auto
qed

text \<open>
  From the start of the system, \<open>init\<close> of the object at address 1 for port 1 completes
  and leaves the entry point of port 0 faulting, and the other way round. After \<open>init\<close>
  for a port, its interrupt and a packet of three bytes complete and the pointer of that
  port is still set.
\<close>

theorem instance_pointer_null_until_init_witness:
  "list_all (\<lambda>c. \<not> inits_port UART_PORT_0 c) [example_init 1 UART_PORT_1] \<and>
   (\<exists>sys1. system_run [example_init 1 UART_PORT_1] blank_system = Inr sys1 \<and>
      UART0_Handler sys1 = Inl NullPointer) \<and>
   list_all (\<lambda>c. \<not> inits_port UART_PORT_1 c) [example_init 1 UART_PORT_0] \<and>
   (\<exists>sys1. system_run [example_init 1 UART_PORT_0] blank_system = Inr sys1 \<and>
      UART1_Handler sys1 = Inl NullPointer) \<and>
   (\<exists>sys2 sys3.
      system_init 1 48000000 UART_PORT_0 0x20000000 (replicate 4 0) 4 0x20000100 (replicate 8 0) 8
        115200 UART_PARITY_NONE blank_system = Inr sys2 \<and>
      UART0_ISR_instance_ptr sys2 = Some 1 \<and>
      system_run [Irq_UART0, Call_copy_packet 1 [1, 2, 3] 3] sys2 = Inr sys3 \<and>
      UART0_ISR_instance_ptr sys3 \<noteq> None) \<and>
   (\<exists>sys2 sys3.
      system_init 1 48000000 UART_PORT_1 0x20000000 (replicate 4 0) 4 0x20000100 (replicate 8 0) 8
        115200 UART_PARITY_NONE blank_system = Inr sys2 \<and>
      UART1_ISR_instance_ptr sys2 = Some 1 \<and>
      system_run [Irq_UART1, Call_copy_packet 1 [1, 2, 3] 3] sys2 = Inr sys3 \<and>
      UART1_ISR_instance_ptr sys3 \<noteq> None)"
proof -
  obtain a1 where a1: "system_run [example_init 1 UART_PORT_1] blank_system = Inr a1"
    by (simp add: system_init_def on_object_def blank_system_def blank_driver_def
        example_init_def driver_ops)
  obtain b1 where b1: "system_run [example_init 1 UART_PORT_0] blank_system = Inr b1"
    by (simp add: system_init_def on_object_def blank_system_def blank_driver_def
        example_init_def driver_ops)
  obtain a2 where a2: "system_init 1 48000000 UART_PORT_0 0x20000000 (replicate 4 0) 4 0x20000100
      (replicate 8 0) 8 115200 UART_PARITY_NONE blank_system = Inr a2"
    by (simp add: system_init_def on_object_def blank_system_def blank_driver_def driver_ops)
  obtain b2 where b2: "system_init 1 48000000 UART_PORT_1 0x20000000 (replicate 4 0) 4 0x20000100
      (replicate 8 0) 8 115200 UART_PARITY_NONE blank_system = Inr b2"
    by (simp add: system_init_def on_object_def blank_system_def blank_driver_def driver_ops)
  obtain a3 where a3: "system_run [Irq_UART0, Call_copy_packet 1 [1, 2, 3] 3] a2 = Inr a3"
    using a2
    by (auto simp: system_init_def on_object_def blank_system_def blank_driver_def driver_ops
        UART0_Handler_def replicate_bytes)
  obtain b3 where b3: "system_run [Irq_UART1, Call_copy_packet 1 [1, 2, 3] 3] b2 = Inr b3"
    using b2
    by (auto simp: system_init_def on_object_def blank_system_def blank_driver_def driver_ops
        UART1_Handler_def replicate_bytes)
  have l: "list_all (\<lambda>c. \<not> inits_port UART_PORT_0 c) [example_init 1 UART_PORT_1]"
    "list_all (\<lambda>c. \<not> inits_port UART_PORT_1 c) [example_init 1 UART_PORT_0]"
    by (simp_all add: example_init_def)
  note t1 = instance_pointer_null_until_init
    [where cs = "[example_init 1 UART_PORT_1]" and ?sys1.0 = a1 and this = 1 and clk = 48000000
       and rxp = "0x20000000" and rxm = "replicate 4 0" and rxn = 4 and txp = "0x20000100"
       and txm = "replicate 8 0" and txn = 8 and baud = 115200 and par = UART_PARITY_NONE
       and sys = blank_system and ?sys2.0 = a2 and cs' = "[Irq_UART0, Call_copy_packet 1 [1, 2, 3] 3]"
       and ?sys3.0 = a3]
  note t2 = instance_pointer_null_until_init
    [where cs = "[example_init 1 UART_PORT_0]" and ?sys1.0 = b1 and this = 1 and clk = 48000000
       and rxp = "0x20000000" and rxm = "replicate 4 0" and rxn = 4 and txp = "0x20000100"
       and txm = "replicate 8 0" and txn = 8 and baud = 115200 and par = UART_PARITY_NONE
       and sys = blank_system and ?sys2.0 = b2 and cs' = "[Irq_UART1, Call_copy_packet 1 [1, 2, 3] 3]"
       and ?sys3.0 = b3]
  show ?thesis
    using t1 t2 a1 b1 a2 b2 a3 b3 l by blast
qed

subsection \<open>Storing and arming a packet\<close>

text \<open>
  With a capacity of \<open>2 ^ 31 + 1\<close> and head and tail at \<open>2 ^ 31\<close>, a packet of
  \<open>2 ^ 31\<close> bytes is no longer than the capacity and does not fit before the end of the
  region. The \<open>uint32_t\<close> sum of length and head is 0, the rollover test fails, and the
  one \<open>memcpy\<close> runs past the end of the region.
\<close>

theorem copy_packet_when_idle_counterexample:
  "tx_indices_ok (tx_state 0x80000001 0x80000000 0x80000000 False (replicate 2147483649 0)) \<and>
   tx_region_ok (tx_state 0x80000001 0x80000000 0x80000000 False (replicate 2147483649 0)) \<and>
   \<not> pdc_Tx_in_progress (tx_state 0x80000001 0x80000000 0x80000000 False (replicate 2147483649 0)) \<and>
   0 < unat (0x80000000 :: u32) \<and>
   unat (0x80000000 :: u32) \<le>
     unat (tx_buffer_size (tx_state 0x80000001 0x80000000 0x80000000 False (replicate 2147483649 0))) \<and>
   length (replicate 2147483648 (7::byte)) = unat (0x80000000 :: u32) \<and>
   unat (tx_buffer_size (tx_state 0x80000001 0x80000000 0x80000000 False (replicate 2147483649 0))) <
     unat (tx_buffer_head_index (tx_state 0x80000001 0x80000000 0x80000000 False (replicate 2147483649 0))) +
     unat (0x80000000 :: u32) \<and>
   copy_packet_into_Tx_buffer_and_transmit (replicate 2147483648 7) 0x80000000
     (tx_state 0x80000001 0x80000000 0x80000000 False (replicate 2147483649 0)) = Inl OutOfBounds"
  by (simp add: tx_state_def blank_driver_def tx_indices_ok_def tx_region_ok_def driver_ops)

text \<open>
  Claim C3, amended: when the capacity is at most \<open>2 ^ 31\<close>, a call with a length of at
  most the capacity on a driver that is not transmitting completes, and: if head + length
  exceeds the capacity the first \<open>capacity - head\<close> bytes are stored at the indices from
  head to the end and the other \<open>second\<close> bytes at the indices from 0 to \<open>second\<close>,
  otherwise all bytes are stored at head; every other byte of the region is unchanged;
  head advances by the length modulo the capacity; the tail advances by the size of the
  first segment modulo the capacity, and it does so before the transmit channel is armed
  (the tail recorded at the arming is the advanced one); the channel is armed once, at
  the head the call found, for exactly the first segment; the flag and the
  transmit-empty interrupt source are set.
\<close>

theorem copy_packet_when_idle:
  assumes "tx_indices_ok s" and "tx_region_ok s" and "\<not> pdc_Tx_in_progress s"
    and "unat (tx_buffer_size s) \<le> 2 ^ 31"
    and "unat n \<le> unat (tx_buffer_size s)" and "length d = unat n"
  shows "(let h = unat (tx_buffer_head_index s); c = unat (tx_buffer_size s);
              first = (if c < h + unat n then c - h else unat n);
              second = unat n - first
          in \<exists>s'. copy_packet_into_Tx_buffer_and_transmit d n s = Inr s' \<and>
               length (tx_mem s') = c \<and>
               take first (drop h (tx_mem s')) = take first d \<and>
               take second (tx_mem s') = drop first d \<and>
               (\<forall>p<c. second \<le> p \<and> (p < h \<or> h + first \<le> p) \<longrightarrow> tx_mem s' ! p = tx_mem s ! p) \<and>
               unat (tx_buffer_head_index s') = (h + unat n) mod c \<and>
               unat (tx_buffer_tail_index s') = (unat (tx_buffer_tail_index s) + first) mod c \<and>
               pdc_Tx_in_progress s' \<and> txbufe_irq_enabled s' \<and>
               periph_tpr s' = pdc_tx_buffer s + tx_buffer_head_index s \<and>
               unat (periph_tcr s') = first \<and>
               tx_armed_runs s' = tx_armed_runs s @ [take first d] \<and>
               tail_when_armed s' = tail_when_armed s @ [tx_buffer_tail_index s'])"
proof -
  let ?h = "tx_buffer_head_index s" and ?c = "tx_buffer_size s" and ?t = "tx_buffer_tail_index s"
  have hw: "?h < ?c" and tw: "?t < ?c" using assms(1) by (simp_all add: tx_indices_ok_def)
  have hn: "unat ?h < unat ?c" and tn: "unat ?t < unat ?c"
    using hw tw by (simp_all add: word_less_nat_alt)
  have len: "length (tx_mem s) = unat ?c" using assms(2) by (simp add: tx_region_ok_def)
  have cb: "unat ?c \<le> 2147483648" using assms(4) by simp
  note w = copy_packet_words [OF hw assms(4,5)]
  define fw where "fw = (if ?c < n + ?h then ?c - ?h else n)"
  define F where "F = (if unat ?c < unat ?h + unat n then unat ?c - unat ?h else unat n)"
  have fwF: "unat fw = F" using w(2,3) by (simp add: fw_def F_def)
  have Fl: "F \<le> unat ?c" using assms(5) by (simp add: F_def)
  have td: "take (unat n) d = d" using assms(6) by simp
  define s' where "s' = s\<lparr>tx_mem := ring_write (tx_mem s) (unat ?h) d,
      tx_buffer_head_index := (if ?c < n + ?h then n + ?h - ?c else (?h + n) mod ?c),
      pdc_Tx_in_progress := True,
      tx_buffer_tail_index := (?t + fw) mod ?c,
      periph_tpr := pdc_tx_buffer s + ?h,
      periph_tcr := fw,
      txbufe_irq_enabled := True,
      tx_armed_runs := tx_armed_runs s @ [take F d],
      tail_when_armed := tail_when_armed s @ [(?t + fw) mod ?c]\<rparr>"
  have res: "copy_packet_into_Tx_buffer_and_transmit d n s = Inr s'"
    using copy_packet_result [OF assms(1,2,4,5), of d] assms(3,6) fwF
    by (simp add: Let_def s'_def fw_def td)
  have hd: "unat (tx_buffer_head_index s') = (unat ?h + unat n) mod unat ?c"
  proof (cases "?c < n + ?h")
    case True
    then have "unat ?c < unat ?h + unat n" using w(2) by simp
    then have "(unat ?h + unat n) mod unat ?c = unat ?h + unat n - unat ?c"
      using hn assms(5) by (intro mod_wrap2) simp_all
    then show ?thesis using True w(4) by (simp add: s'_def)
  next
    case False
    then show ?thesis using w(7) by (simp add: s'_def)
  qed
  have "unat ?t + unat fw < 4294967296" using tn fwF Fl cb by simp
  then have tl: "unat (tx_buffer_tail_index s') = (unat ?t + F) mod unat ?c"
    using fwF by (simp add: s'_def unat_mod_u32 unat_add_u32)
  have K: "length d \<le> length (tx_mem s)" using assms(5,6) len by simp
  have H: "unat ?h < length (tx_mem s)" using hn len by simp
  note seg = ring_write_segments [OF H K, unfolded len assms(6), folded F_def]
  have m: "tx_mem s' = ring_write (tx_mem s) (unat ?h) d" by (simp add: s'_def)
  show ?thesis
    unfolding Let_def
    apply (rule exI [of _ s'])
    apply (fold F_def)
    apply (intro conjI)
    subgoal by (rule res)
    subgoal unfolding m by (rule seg(1))
    subgoal unfolding m by (rule seg(2))
    subgoal unfolding m by (rule seg(3))
    subgoal unfolding m by (rule seg(4))
    subgoal by (rule hd)
    subgoal by (rule tl)
    subgoal by (simp add: s'_def)
    subgoal by (simp add: s'_def)
    subgoal by (simp add: s'_def)
    subgoal using fwF by (simp add: s'_def)
    subgoal by (simp add: s'_def)
    subgoal by (simp add: s'_def)
    done
qed

text \<open>
  The scenario of the specification: capacity 8, head and tail 6, the packet
  \<open>[A, B, C, D, E]\<close>. \<open>[A, B]\<close> goes to the indices 6 and 7 and \<open>[C, D, E]\<close> to 0, 1
  and 2; 2 bytes are armed at index 6, the tail is 0 and the head 3.
\<close>

theorem copy_packet_when_idle_witness:
  "tx_indices_ok (tx_state 8 6 6 False (replicate 8 0)) \<and>
   tx_region_ok (tx_state 8 6 6 False (replicate 8 0)) \<and>
   \<not> pdc_Tx_in_progress (tx_state 8 6 6 False (replicate 8 0)) \<and>
   unat (5 :: u32) \<le> unat (tx_buffer_size (tx_state 8 6 6 False (replicate 8 0))) \<and>
   length [65, 66, 67, 68, 69 :: byte] = unat (5 :: u32) \<and>
   copy_packet_into_Tx_buffer_and_transmit [65, 66, 67, 68, 69] 5 (tx_state 8 6 6 False (replicate 8 0)) =
     Inr ((tx_state 8 3 0 True [67, 68, 69, 0, 0, 0, 65, 66])
            \<lparr>periph_tpr := 6, periph_tcr := 2, txbufe_irq_enabled := True,
             tx_armed_runs := [[65, 66]], tail_when_armed := [0]\<rparr>)"
  using copy_packet_when_idle [of "tx_state 8 6 6 False (replicate 8 0)" 5 "[65, 66, 67, 68, 69]"]
  by (simp add: tx_state_def blank_driver_def tx_indices_ok_def tx_region_ok_def driver_ops
      replicate_bytes)

subsection \<open>Accesses stay inside the buffers\<close>

text \<open>
  After \<open>init\<close> with a transmit region of \<open>2 ^ 31 + 1\<close> bytes, a packet of \<open>2 ^ 31\<close>
  bytes leaves the indices inside the buffer with the head at \<open>2 ^ 31\<close>; a second packet
  of \<open>2 ^ 31\<close> bytes is then copied past the end of the region.
\<close>

theorem accesses_stay_inside_counterexample:
  "unat (0x80000000 :: u32) \<le> unat (0x80000001 :: u32) \<and>
   length (replicate 2147483648 (7::byte)) = unat (0x80000000 :: u32) \<and>
   then_do (init 48000000 UART_PORT_0 0x1000 (replicate 4 0) 4 0x10000000
              (replicate 2147483649 0) 0x80000001 115200 UART_PARITY_NONE blank_driver)
     (\<lambda>s. then_do (copy_packet_into_Tx_buffer_and_transmit (replicate 2147483648 7) 0x80000000 s)
        (\<lambda>s'. Inr (tx_indices_ok s' \<and> tx_region_ok s' \<and> tx_buffer_size s' = 0x80000001 \<and>
                   tx_buffer_head_index s' = 0x80000000))) = Inr True \<and>
   then_do (init 48000000 UART_PORT_0 0x1000 (replicate 4 0) 4 0x10000000
              (replicate 2147483649 0) 0x80000001 115200 UART_PARITY_NONE blank_driver)
     (\<lambda>s. then_do (copy_packet_into_Tx_buffer_and_transmit (replicate 2147483648 7) 0x80000000 s)
        (copy_packet_into_Tx_buffer_and_transmit (replicate 2147483648 7) 0x80000000)) =
     Inl OutOfBounds"
  by (simp add: blank_driver_def tx_indices_ok_def tx_region_ok_def driver_ops)

text \<open>
  Claim C7, amended: in a state whose indices lie inside their buffers, whose regions
  have the sizes the driver was told, and whose transmit capacity is at most \<open>2 ^ 31\<close>,
  every operation completes without a fault of the model, that is, without a \<open>memcpy\<close>
  or a byte read outside a region and without a remainder by zero:
  \<open>copy_packet_into_Tx_buffer_and_transmit\<close> with any length up to the capacity,
  \<open>get_latest_byte\<close>, and the interrupt handler under any status bits. Afterwards the
  indices lie inside their buffers again, and a range armed for transmission lies inside
  the transmit region. (\<open>get_number_of_unread_bytes\<close> computes on registers and indices
  only.)
\<close>

theorem accesses_stay_inside:
  assumes "tx_indices_ok s" and "tx_region_ok s" and "rx_index_ok s" and "rx_region_ok s"
    and "unat (tx_buffer_size s) \<le> 2 ^ 31"
  shows "(unat n \<le> unat (tx_buffer_size s) \<and> unat n \<le> length d \<longrightarrow>
            (\<exists>s'. copy_packet_into_Tx_buffer_and_transmit d n s = Inr s' \<and>
               tx_indices_ok s' \<and> tx_region_ok s' \<and> rx_index_ok s' \<and> rx_region_ok s' \<and>
               (\<not> pdc_Tx_in_progress s \<longrightarrow>
                  unat (periph_tpr s' - pdc_tx_buffer s') + unat (periph_tcr s') \<le>
                    unat (tx_buffer_size s')))) \<and>
         (\<exists>s'. get_latest_byte s = Inr (rx_mem s ! unat (rx_buffer_tail_index s), s') \<and>
            unat (rx_buffer_tail_index s) < length (rx_mem s) \<and>
            tx_indices_ok s' \<and> tx_region_ok s' \<and> rx_index_ok s' \<and> rx_region_ok s') \<and>
         (\<exists>s'. serial_circular_buffer_irq_handler s = Inr s' \<and>
            tx_indices_ok s' \<and> tx_region_ok s' \<and> rx_index_ok s' \<and> rx_region_ok s' \<and>
            (sr_txbufe s \<and> get_number_of_unsent_bytes s \<noteq> 0 \<longrightarrow>
               unat (periph_tpr s' - pdc_tx_buffer s') + unat (periph_tcr s') \<le>
                 unat (tx_buffer_size s')))"
proof (intro conjI impI)
  assume "unat n \<le> unat (tx_buffer_size s) \<and> unat n \<le> length d"
  then have n: "unat n \<le> unat (tx_buffer_size s)" and d: "unat n \<le> length d" by simp_all
  from copy_packet_stays_inside [OF assms(1,2,5) n d] obtain s' where
    "copy_packet_into_Tx_buffer_and_transmit d n s = Inr s'" "tx_indices_ok s'" "tx_region_ok s'"
    "tx_buffer_size s' = tx_buffer_size s" "rx_buffer_size s' = rx_buffer_size s"
    "rx_buffer_tail_index s' = rx_buffer_tail_index s" "rx_mem s' = rx_mem s"
    "\<not> pdc_Tx_in_progress s \<longrightarrow>
       unat (periph_tpr s' - pdc_tx_buffer s') + unat (periph_tcr s') \<le> unat (tx_buffer_size s)"
    by blast
  then show "\<exists>s'. copy_packet_into_Tx_buffer_and_transmit d n s = Inr s' \<and>
               tx_indices_ok s' \<and> tx_region_ok s' \<and> rx_index_ok s' \<and> rx_region_ok s' \<and>
               (\<not> pdc_Tx_in_progress s \<longrightarrow>
                  unat (periph_tpr s' - pdc_tx_buffer s') + unat (periph_tcr s') \<le>
                    unat (tx_buffer_size s'))"
    using assms(3,4) by (intro exI [of _ s']) (simp add: rx_index_ok_def rx_region_ok_def)
next
  from get_latest_byte_stays_inside [OF assms(3,4)] obtain s' where
    "get_latest_byte s = Inr (rx_mem s ! unat (rx_buffer_tail_index s), s')"
    "unat (rx_buffer_tail_index s) < length (rx_mem s)" "rx_index_ok s'" "rx_region_ok s'"
    "tx_buffer_size s' = tx_buffer_size s" "tx_buffer_head_index s' = tx_buffer_head_index s"
    "tx_buffer_tail_index s' = tx_buffer_tail_index s" "tx_mem s' = tx_mem s"
    by blast
  then show "\<exists>s'. get_latest_byte s = Inr (rx_mem s ! unat (rx_buffer_tail_index s), s') \<and>
            unat (rx_buffer_tail_index s) < length (rx_mem s) \<and>
            tx_indices_ok s' \<and> tx_region_ok s' \<and> rx_index_ok s' \<and> rx_region_ok s'"
    using assms(1,2) by (intro exI [of _ s']) (simp add: tx_indices_ok_def tx_region_ok_def)
next
  from irq_stays_inside [OF assms(1,5)] obtain s' where
    "serial_circular_buffer_irq_handler s = Inr s'" "tx_indices_ok s'" "tx_mem s' = tx_mem s"
    "tx_buffer_size s' = tx_buffer_size s" "rx_buffer_size s' = rx_buffer_size s"
    "rx_buffer_tail_index s' = rx_buffer_tail_index s" "rx_mem s' = rx_mem s"
    "sr_txbufe s \<and> get_number_of_unsent_bytes s \<noteq> 0 \<longrightarrow>
       unat (periph_tpr s' - pdc_tx_buffer s') + unat (periph_tcr s') \<le> unat (tx_buffer_size s)"
    by blast
  then show "\<exists>s'. serial_circular_buffer_irq_handler s = Inr s' \<and>
            tx_indices_ok s' \<and> tx_region_ok s' \<and> rx_index_ok s' \<and> rx_region_ok s' \<and>
            (sr_txbufe s \<and> get_number_of_unsent_bytes s \<noteq> 0 \<longrightarrow>
               unat (periph_tpr s' - pdc_tx_buffer s') + unat (periph_tcr s') \<le>
                 unat (tx_buffer_size s'))"
    using assms(2,3,4)
    by (intro exI [of _ s']) (simp add: rx_index_ok_def rx_region_ok_def tx_region_ok_def)
qed

theorem accesses_stay_inside_witness:
  "tx_indices_ok ((tx_state 8 3 6 True [67, 68, 69, 0, 0, 0, 65, 66])
      \<lparr>rx_buffer_size := 4, rx_mem := [1, 2, 3, 4], rx_buffer_tail_index := 3, sr_txbufe := True\<rparr>) \<and>
   tx_region_ok ((tx_state 8 3 6 True [67, 68, 69, 0, 0, 0, 65, 66])
      \<lparr>rx_buffer_size := 4, rx_mem := [1, 2, 3, 4], rx_buffer_tail_index := 3, sr_txbufe := True\<rparr>) \<and>
   rx_index_ok ((tx_state 8 3 6 True [67, 68, 69, 0, 0, 0, 65, 66])
      \<lparr>rx_buffer_size := 4, rx_mem := [1, 2, 3, 4], rx_buffer_tail_index := 3, sr_txbufe := True\<rparr>) \<and>
   rx_region_ok ((tx_state 8 3 6 True [67, 68, 69, 0, 0, 0, 65, 66])
      \<lparr>rx_buffer_size := 4, rx_mem := [1, 2, 3, 4], rx_buffer_tail_index := 3, sr_txbufe := True\<rparr>) \<and>
   (\<exists>s'. copy_packet_into_Tx_buffer_and_transmit [70, 71, 72] 3
       ((tx_state 8 3 6 True [67, 68, 69, 0, 0, 0, 65, 66])
          \<lparr>rx_buffer_size := 4, rx_mem := [1, 2, 3, 4], rx_buffer_tail_index := 3, sr_txbufe := True\<rparr>) = Inr s' \<and>
      tx_indices_ok s' \<and> tx_region_ok s') \<and>
   (\<exists>s'. get_latest_byte
       ((tx_state 8 3 6 True [67, 68, 69, 0, 0, 0, 65, 66])
          \<lparr>rx_buffer_size := 4, rx_mem := [1, 2, 3, 4], rx_buffer_tail_index := 3, sr_txbufe := True\<rparr>) = Inr (4, s') \<and>
      rx_index_ok s') \<and>
   (\<exists>s'. serial_circular_buffer_irq_handler
       ((tx_state 8 3 6 True [67, 68, 69, 0, 0, 0, 65, 66])
          \<lparr>rx_buffer_size := 4, rx_mem := [1, 2, 3, 4], rx_buffer_tail_index := 3, sr_txbufe := True\<rparr>) = Inr s' \<and>
      tx_indices_ok s' \<and>
      unat (periph_tpr s' - pdc_tx_buffer s') + unat (periph_tcr s') \<le> unat (tx_buffer_size s'))"
  using accesses_stay_inside [of "(tx_state 8 3 6 True [67, 68, 69, 0, 0, 0, 65, 66])
      \<lparr>rx_buffer_size := 4, rx_mem := [1, 2, 3, 4], rx_buffer_tail_index := 3, sr_txbufe := True\<rparr>"
      3 "[70, 71, 72]"]
  by (simp add: tx_state_def blank_driver_def tx_indices_ok_def tx_region_ok_def rx_index_ok_def
      rx_region_ok_def driver_ops)

subsection \<open>What is transmitted\<close>

text \<open>
  Two schedules on an idle transmitter. With capacity 2, an empty packet arms nothing but
  sets the flag, so the two bytes handed over next are not armed; they fill the buffer,
  head meets tail again, and the next interrupt finds nothing unsent: no byte is ever
  armed. With capacity \<open>2 ^ 31 + 1\<close> and head \<open>2 ^ 31\<close>, a packet of \<open>2 ^ 31\<close> bytes is
  copied past the end of the region.
\<close>

theorem transmitted_bytes_counterexample:
  "tx_idle (tx_state 2 0 0 False [0, 0]) \<and>
   length (enqueued [Enqueue [], Enqueue [1, 2]]) \<le> unat (tx_buffer_size (tx_state 2 0 0 False [0, 0])) \<and>
   run_events [Enqueue [], Enqueue [1, 2]] (tx_state 2 0 0 False [0, 0]) =
     Inr ((tx_state 2 0 0 True [1, 2])\<lparr>txbufe_irq_enabled := True, tx_armed_runs := [[]],
       tail_when_armed := [0]\<rparr>) \<and>
   drive_until_idle 3 ((tx_state 2 0 0 True [1, 2])\<lparr>txbufe_irq_enabled := True, tx_armed_runs := [[]],
       tail_when_armed := [0]\<rparr>) =
     Inr (Some ((tx_state 2 0 0 False [1, 2])\<lparr>sr_txbufe := True, tx_armed_runs := [[]],
       tail_when_armed := [0]\<rparr>)) \<and>
   concat (tx_armed_runs ((tx_state 2 0 0 False [1, 2])\<lparr>sr_txbufe := True, tx_armed_runs := [[]],
       tail_when_armed := [0]\<rparr>)) \<noteq>
     enqueued [Enqueue [], Enqueue [1, 2]] \<and>
   tx_idle (tx_state 0x80000001 0x80000000 0x80000000 False (replicate 2147483649 0)) \<and>
   length (enqueued [Enqueue (replicate 2147483648 7)]) \<le>
     unat (tx_buffer_size (tx_state 0x80000001 0x80000000 0x80000000 False (replicate 2147483649 0))) \<and>
   run_events [Enqueue (replicate 2147483648 7)]
     (tx_state 0x80000001 0x80000000 0x80000000 False (replicate 2147483649 0)) = Inl OutOfBounds"
  by (simp add: tx_state_def blank_driver_def tx_idle_def driver_ops numeral_3_eq_3)

text \<open>
  Claim C1, amended: let the capacity be at most \<open>2 ^ 31\<close>, and let a schedule of
  packets of total length at most the capacity, in which no packet is empty or whose
  total length is less than the capacity, start on an idle transmitter (flag clear, head
  equal to tail) and be interleaved in any way with transmit-complete interrupts. Then
  every call completes, at most three more transmit-complete interrupts leave the
  transmitter idle, and the byte runs armed on the way, concatenated in arming order, are
  the bytes of the packets in order, none lost and none twice, also when a packet is
  split at the end of the buffer.
\<close>

theorem transmitted_bytes_in_order:
  assumes "tx_idle s" and "tx_region_ok s" and "unat (tx_buffer_size s) \<le> 2 ^ 31"
    and "length (enqueued evs) \<le> unat (tx_buffer_size s)"
    and "packets_nonempty evs \<or> length (enqueued evs) < unat (tx_buffer_size s)"
  shows "\<exists>s1 s2. run_events evs s = Inr s1 \<and> drive_until_idle 3 s1 = Inr (Some s2) \<and>
           concat (tx_armed_runs s2) = concat (tx_armed_runs s) @ enqueued evs \<and> tx_idle s2"
proof -
  note i0 = inv_start [OF assms(1-3)]
  have alt: "length ([] :: byte list) + length (enqueued evs) < unat (tx_buffer_size s) \<or>
      packets_nonempty evs \<and> (pdc_Tx_in_progress s \<longrightarrow> 0 < (0::nat))"
    using assms(1,5) by (auto simp: tx_idle_def)
  from inv_run_events [OF i0 _ alt] assms(4) obtain s1 k1 where
    r: "run_events evs s = Inr s1"
    and i1: "tx_ring_inv (unat (tx_buffer_size s)) (unat (tx_buffer_head_index s)) (enqueued evs)
               (concat (tx_armed_runs s)) k1 s1"
    by auto
  from inv_drain3 [OF i1, of 0] obtain s2 where
    d: "drive_until_idle 3 s1 = Inr (Some s2)"
    and i2: "tx_ring_inv (unat (tx_buffer_size s)) (unat (tx_buffer_head_index s)) (enqueued evs)
               (concat (tx_armed_runs s)) (length (enqueued evs)) s2"
    and p: "\<not> pdc_Tx_in_progress s2"
    by (auto simp: numeral_3_eq_3)
  from inv_idle_done(3,4) [OF i2 p] r d show ?thesis by blast
qed

text \<open>
  Capacity 8, head and tail 6: a packet of five bytes that is split at the end of the
  buffer, one interrupt, a packet of two bytes, and then the interrupts that drain. And,
  less than the capacity in all: an empty packet, then three bytes.
\<close>

theorem transmitted_bytes_in_order_witness:
  "tx_idle (tx_state 8 6 6 False (replicate 8 0)) \<and>
   tx_region_ok (tx_state 8 6 6 False (replicate 8 0)) \<and>
   packets_nonempty [Enqueue [65, 66, 67, 68, 69], TxComplete False, Enqueue [70, 71]] \<and>
   length (enqueued [Enqueue [65, 66, 67, 68, 69], TxComplete False, Enqueue [70, 71]]) \<le>
     unat (tx_buffer_size (tx_state 8 6 6 False (replicate 8 0))) \<and>
   (\<exists>s1 s2. run_events [Enqueue [65, 66, 67, 68, 69], TxComplete False, Enqueue [70, 71]]
        (tx_state 8 6 6 False (replicate 8 0)) = Inr s1 \<and>
      drive_until_idle 3 s1 = Inr (Some s2) \<and>
      concat (tx_armed_runs s2) = [65, 66, 67, 68, 69, 70, 71] \<and> tx_idle s2) \<and>
   length (enqueued [Enqueue [], Enqueue [72, 73, 74]]) <
     unat (tx_buffer_size (tx_state 8 6 6 False (replicate 8 0))) \<and>
   (\<exists>s1 s2. run_events [Enqueue [], Enqueue [72, 73, 74]]
        (tx_state 8 6 6 False (replicate 8 0)) = Inr s1 \<and>
      drive_until_idle 3 s1 = Inr (Some s2) \<and>
      concat (tx_armed_runs s2) = [72, 73, 74] \<and> tx_idle s2)"
  using transmitted_bytes_in_order [of "tx_state 8 6 6 False (replicate 8 0)"
      "[Enqueue [65, 66, 67, 68, 69], TxComplete False, Enqueue [70, 71]]"]
    transmitted_bytes_in_order [of "tx_state 8 6 6 False (replicate 8 0)"
      "[Enqueue [], Enqueue [72, 73, 74]]"]
  by (simp add: tx_state_def blank_driver_def tx_idle_def tx_region_ok_def)

subsection \<open>Round trip\<close>

text \<open>
  With capacity \<open>2 ^ 31 + 1\<close> and an idle transmitter at head \<open>2 ^ 31\<close>, handing over
  \<open>2 ^ 31\<close> bytes does not complete: the copy runs past the end of the region.
\<close>

theorem round_trip_counterexample:
  "tx_idle (tx_state 0x80000001 0x80000000 0x80000000 False (replicate 2147483649 0)) \<and>
   0 < unat (0x80000000 :: u32) \<and>
   unat (0x80000000 :: u32) \<le>
     unat (tx_buffer_size (tx_state 0x80000001 0x80000000 0x80000000 False (replicate 2147483649 0))) \<and>
   length (replicate 2147483648 (7::byte)) = unat (0x80000000 :: u32) \<and>
   copy_packet_into_Tx_buffer_and_transmit (replicate 2147483648 7) 0x80000000
     (tx_state 0x80000001 0x80000000 0x80000000 False (replicate 2147483649 0)) = Inl OutOfBounds"
  by (simp add: tx_state_def blank_driver_def tx_idle_def driver_ops)

text \<open>
  Claim C8, amended: when the capacity is at most \<open>2 ^ 31\<close>, handing \<open>N\<close> bytes with
  \<open>N \<le> tx_capacity\<close> (so for every \<open>N\<close> with \<open>0 < N \<le> tx_capacity\<close>) to an idle
  transmitter completes, and transmit-complete interrupts then make the transmitter idle
  after at most three of them, with the tail equal to the head and
  \<open>get_number_of_unsent_bytes\<close> equal to 0.
\<close>

theorem round_trip_drains:
  assumes "tx_idle s" and "tx_region_ok s" and "unat (tx_buffer_size s) \<le> 2 ^ 31"
    and "unat n \<le> unat (tx_buffer_size s)" and "length d = unat n"
  shows "\<exists>s1 s2. copy_packet_into_Tx_buffer_and_transmit d n s = Inr s1 \<and>
           drive_until_idle 3 s1 = Inr (Some s2) \<and> \<not> pdc_Tx_in_progress s2 \<and>
           tx_buffer_tail_index s2 = tx_buffer_head_index s2 \<and>
           get_number_of_unsent_bytes s2 = 0"
proof -
  note i0 = inv_start [OF assms(1-3)]
  have n: "of_nat (length d) = n" using assms(5) by simp
  have idle: "pdc_Tx_in_progress s \<longrightarrow>
      length ([] :: byte list) + length d - 0 < unat (tx_buffer_size s)"
    using assms(1) by (simp add: tx_idle_def)
  from inv_enqueue [OF i0 _ idle] assms(4,5) n obtain s1 k1 where
    r: "copy_packet_into_Tx_buffer_and_transmit d n s = Inr s1"
    and i1: "tx_ring_inv (unat (tx_buffer_size s)) (unat (tx_buffer_head_index s)) ([] @ d)
               (concat (tx_armed_runs s)) k1 s1"
    by auto
  from inv_drain3 [OF i1, of 0] obtain s2 where
    dr: "drive_until_idle 3 s1 = Inr (Some s2)"
    and i2: "tx_ring_inv (unat (tx_buffer_size s)) (unat (tx_buffer_head_index s)) ([] @ d)
               (concat (tx_armed_runs s)) (length ([] @ d)) s2"
    and p: "\<not> pdc_Tx_in_progress s2"
    by (auto simp: numeral_3_eq_3)
  from inv_idle_done(2,5) [OF i2 p] r dr p show ?thesis by auto
qed

theorem round_trip_drains_witness:
  "tx_idle (tx_state 8 6 6 False (replicate 8 0)) \<and>
   tx_region_ok (tx_state 8 6 6 False (replicate 8 0)) \<and>
   unat (5 :: u32) \<le> unat (tx_buffer_size (tx_state 8 6 6 False (replicate 8 0))) \<and>
   length [65, 66, 67, 68, 69 :: byte] = unat (5 :: u32) \<and>
   (\<exists>s1 s2. copy_packet_into_Tx_buffer_and_transmit [65, 66, 67, 68, 69] 5
        (tx_state 8 6 6 False (replicate 8 0)) = Inr s1 \<and>
      drive_until_idle 3 s1 = Inr (Some s2) \<and> \<not> pdc_Tx_in_progress s2 \<and>
      tx_buffer_tail_index s2 = tx_buffer_head_index s2 \<and>
      get_number_of_unsent_bytes s2 = 0)"
  using round_trip_drains [of "tx_state 8 6 6 False (replicate 8 0)" 5 "[65, 66, 67, 68, 69]"]
  by (simp add: tx_state_def blank_driver_def tx_idle_def tx_region_ok_def)


end
